theory Spec2Isabelle
  imports Complex_Main "HOL-Library.Product_Lexorder"
begin

section \<open>Calendar dates\<close>

text \<open>
  The program handles calendar dates as ISO strings \<^verbatim>\<open>YYYY-MM-DD\<close> (the text of a
  Postgres \<^verbatim>\<open>DATE\<close>, or \<^verbatim>\<open>toISOString().slice(0, 10)\<close>) and compares them with the
  string order, which on such strings is the order of the days. A date is modelled by
  its day number (days since 1970-01-01); \<open>isoDate y m d\<close> is the day number of the
  date written \<^verbatim>\<open>y-m-d\<close> in the proleptic Gregorian calendar.
\<close>

type_synonym date = int

definition isoDate :: "int \<Rightarrow> int \<Rightarrow> int \<Rightarrow> date" where
  "isoDate y m d =
     (let y' = (if m \<le> 2 then y - 1 else y);
          era = y' div 400;
          yoe = y' - era * 400;
          doy = (153 * (if m > 2 then m - 3 else m + 9) + 2) div 5 + d - 1;
          doe = yoe * 365 + yoe div 4 - yoe div 100 + doy
      in era * 146097 + doe - 719468)"

text \<open>
  A JavaScript \<^verbatim>\<open>Date\<close> is a number of milliseconds since the epoch;
  \<^verbatim>\<open>new Date().toISOString().slice(0, 10)\<close> is its UTC day. The server runs in UTC, so
  \<^verbatim>\<open>d.setDate(d.getDate() - k)\<close> moves the instant by \<open>k\<close> days of 86400000 ms.
\<close>

definition msPerDay :: int where
  "msPerDay = 86400000"

definition utcDay :: "int \<Rightarrow> date" where
  "utcDay now = now div msPerDay"

definition setDateBack :: "int \<Rightarrow> int \<Rightarrow> int" where
  "setDateBack now k = now - k * msPerDay"

section \<open>Request payloads\<close>

datatype json =
    JNull
  | JBool bool
  | JNum rat
  | JStr string
  | JArr "json list"
  | JObj "(string \<times> json) list"

text \<open>
  A field of a parsed JSON body is \<open>None\<close> when the key is absent (JavaScript
  \<^verbatim>\<open>undefined\<close>). Bucket identifiers are JSON integers and dates are well-formed ISO
  date strings where present, as the client sends them; the \<^verbatim>\<open>checked\<close>,
  \<^verbatim>\<open>name\<close> and \<^verbatim>\<open>sortOrder\<close> fields are arbitrary JSON values.
\<close>

record checkin_payload =
  p_bucketId :: "int option"
  p_date :: "date option"
  p_checked :: "json option"

text \<open>\<^verbatim>\<open>payload.checked !== false\<close>: strict inequality with the boolean false.\<close>

fun notStrictlyFalse :: "json option \<Rightarrow> bool" where
  "notStrictlyFalse (Some (JBool False)) = False"
| "notStrictlyFalse _ = True"

text \<open>\<^verbatim>\<open>!payload?.bucketId\<close> on a number: absent and 0 are falsy.\<close>

fun truthyId :: "int option \<Rightarrow> bool" where
  "truthyId None = False"
| "truthyId (Some n) = (n \<noteq> 0)"

section \<open>The relational store\<close>

record bucket_row =
  b_id :: int
  b_user :: "int option"
  b_name :: string
  b_sort :: int

record entry_row =
  e_user :: int
  e_bucket :: int
  e_date :: date
  e_checked :: bool

text \<open>
  The tables the claims are about, the \<^verbatim>\<open>SERIAL\<close> sequence of \<^verbatim>\<open>buckets.id\<close>, and the
  parts of the schema that the migration changes: whether \<^verbatim>\<open>buckets.user_id\<close> exists,
  whether it is \<^verbatim>\<open>NOT NULL\<close>, and which unique indexes on \<^verbatim>\<open>buckets\<close> exist.
  \<open>b_user = None\<close> is a \<^verbatim>\<open>NULL\<close> owner (a legacy, global bucket).
\<close>

record db =
  users :: "int list"
  buckets :: "bucket_row list"
  entries :: "entry_row list"
  bucket_seq :: int
  col_user_id :: bool
  user_id_not_null :: bool
  idx_name_unique :: bool
  idx_user_name_unique :: bool

datatype db_error =
    UniqueViolation
  | ForeignKeyViolation
  | NotNullViolation
  | UndefinedColumn
  | InvalidOnConflict
  | NumericOutOfRange

text \<open>
  A handler ends in one of three ways: it sends a JSON error with a status
  (\<^verbatim>\<open>sendJson(res, status, { error })\<close>), an exception of the SQL client or a
  \<^verbatim>\<open>TypeError\<close> escapes it, or it sends its success reply.
\<close>

datatype failure =
    Http nat string
  | Thrown db_error
  | TypeError

definition int4 :: "int \<Rightarrow> bool" where
  "int4 n = (- 2147483648 \<le> n \<and> n \<le> 2147483647)"

section \<open>Entry ledger: POST /api/checkins\<close>

definition entryKey :: "entry_row \<Rightarrow> int \<times> int \<times> date" where
  "entryKey e = (e_user e, e_bucket e, e_date e)"

text \<open>
  \<^verbatim>\<open>INSERT INTO entries ... ON CONFLICT (user_id, bucket_id, date) DO UPDATE SET checked\<close>:
  both foreign keys are checked, then the row with the same key is overwritten, or
  the new row is appended.
\<close>

definition upsertEntry :: "int \<Rightarrow> int \<Rightarrow> date \<Rightarrow> bool \<Rightarrow> db \<Rightarrow> db_error + db" where
  "upsertEntry uid bid d c s =
     (if \<not> int4 bid then Inl NumericOutOfRange
      else if uid \<notin> set (users s) \<or> bid \<notin> b_id ` set (buckets s) then Inl ForeignKeyViolation
      else if (uid, bid, d) \<in> entryKey ` set (entries s)
        then Inr (s\<lparr>entries := map (\<lambda>e. if entryKey e = (uid, bid, d) then e\<lparr>e_checked := c\<rparr> else e)
                                    (entries s)\<rparr>)
      else Inr (s\<lparr>entries := entries s @ [\<lparr>e_user = uid, e_bucket = bid, e_date = d, e_checked = c\<rparr>]\<rparr>))"

definition DateOutOfRange :: failure where
  "DateOutOfRange = Http 400 ''Can only edit entries for today and past 2 days''"

text \<open>
  The POST branch of the handler, for the authenticated user \<open>uid\<close> at the server
  time \<open>now\<close> (milliseconds), on the parsed body (\<open>None\<close> when \<^verbatim>\<open>readJson\<close> returns
  null). The result is the outcome and the store after the request.
\<close>

definition checkinsPost :: "int \<Rightarrow> int \<Rightarrow> checkin_payload option \<Rightarrow> db \<Rightarrow> (failure + unit) \<times> db" where
  "checkinsPost uid now payload s =
     (case payload of
        None \<Rightarrow> (Inl (Http 400 ''bucketId and date required''), s)
      | Some p \<Rightarrow>
          (case (p_bucketId p, p_date p) of
             (Some bid, Some d) \<Rightarrow>
               if \<not> truthyId (Some bid) then (Inl (Http 400 ''bucketId and date required''), s)
               else
                 let checked = notStrictlyFalse (p_checked p);
                     todayDate = utcDay now;
                     earliestDate = utcDay (setDateBack now 2)
                 in if d < earliestDate \<or> d > todayDate then (Inl DateOutOfRange, s)
                    else (case upsertEntry uid bid d checked s of
                            Inl err \<Rightarrow> (Inl (Thrown err), s)
                          | Inr s' \<Rightarrow> (Inr (), s'))
           | _ \<Rightarrow> (Inl (Http 400 ''bucketId and date required''), s)))"

section \<open>A store with exceptions\<close>

text \<open>
  A statement of \<^verbatim>\<open>sql\<close> runs on the store and either returns a value or throws;
  an exception ends the enclosing function and keeps every earlier statement's effect
  (the scripts and handlers open no transaction).
\<close>

type_synonym 'a stmt = "db \<Rightarrow> (db_error + 'a) \<times> db"

definition returnS :: "'a \<Rightarrow> 'a stmt" where
  "returnS x s = (Inr x, s)"

definition throwS :: "db_error \<Rightarrow> 'a stmt" where
  "throwS e s = (Inl e, s)"

definition bindS :: "'a stmt \<Rightarrow> ('a \<Rightarrow> 'b stmt) \<Rightarrow> 'b stmt" where
  "bindS m f s = (case m s of (Inl e, s') \<Rightarrow> (Inl e, s') | (Inr x, s') \<Rightarrow> f x s')"

text \<open>\<^verbatim>\<open>for (const x of xs) { await f(x) }\<close>\<close>

fun forEach :: "'a list \<Rightarrow> ('a \<Rightarrow> unit stmt) \<Rightarrow> unit stmt" where
  "forEach [] f s = (Inr (), s)"
| "forEach (x # xs) f s =
     (case f x s of (Inl e, s') \<Rightarrow> (Inl e, s') | (Inr u, s') \<Rightarrow> forEach xs f s')"

section \<open>Bucket registry: /api/buckets\<close>

definition MAX_BUCKETS_PER_USER :: nat where
  "MAX_BUCKETS_PER_USER = 5"

definition DEFAULT_BUCKETS :: "(string \<times> int) list" where
  "DEFAULT_BUCKETS =
     [(''10 min calisthenics'', 1), (''25 min cardio'', 2), (''Stretching / mobility'', 3)]"

text \<open>
  \<^verbatim>\<open>String.prototype.trim\<close> on a string of ASCII characters: the white space and line
  terminators of JavaScript below 128 are tab, line feed, vertical tab, form feed,
  carriage return and space.
\<close>

definition isWhiteSpace :: "char \<Rightarrow> bool" where
  "isWhiteSpace c = (c \<in> {CHR 0x09, CHR 0x0A, CHR 0x0B, CHR 0x0C, CHR 0x0D, CHR '' ''})"

definition trim :: "string \<Rightarrow> string" where
  "trim str = rev (dropWhile isWhiteSpace (rev (dropWhile isWhiteSpace str)))"

text \<open>
  \<^verbatim>\<open>name?.trim()\<close>: \<^verbatim>\<open>undefined\<close> for an absent or null name, the trimmed text for a
  string, and a \<^verbatim>\<open>TypeError\<close> for any other value, which has no \<^verbatim>\<open>trim\<close> method.
  The result \<open>Inr None\<close> stands for \<^verbatim>\<open>undefined\<close>.
\<close>

fun optTrim :: "json option \<Rightarrow> failure + string option" where
  "optTrim None = Inr None"
| "optTrim (Some JNull) = Inr None"
| "optTrim (Some (JStr str)) = Inr (Some (trim str))"
| "optTrim (Some v) = Inl TypeError"

text \<open>\<^verbatim>\<open>Number.isInteger(sortOrder) ? sortOrder : null\<close>\<close>

fun integerOrNull :: "json option \<Rightarrow> int option" where
  "integerOrNull (Some (JNum r)) = (if r = of_int \<lfloor>r\<rfloor> then Some \<lfloor>r\<rfloor> else None)"
| "integerOrNull v = None"

record bucket_payload =
  p_id :: "int option"
  p_name :: "json option"
  p_sortOrder :: "json option"

definition bucketsOf :: "int \<Rightarrow> db \<Rightarrow> bucket_row list" where
  "bucketsOf uid s = filter (\<lambda>b. b_user b = Some uid) (buckets s)"

text \<open>
  A statement that names \<^verbatim>\<open>buckets.user_id\<close> fails while the column does not exist.
\<close>

definition needUserIdColumn :: "unit stmt" where
  "needUserIdColumn s = (if col_user_id s then (Inr (), s) else (Inl UndefinedColumn, s))"

text \<open>\<^verbatim>\<open>SELECT id, name, sort_order FROM buckets WHERE user_id = $1 ORDER BY sort_order ASC, id ASC\<close>\<close>

definition listBuckets :: "int \<Rightarrow> bucket_row list stmt" where
  "listBuckets uid =
     bindS needUserIdColumn (\<lambda>u s. (Inr (sort_key (\<lambda>b. (b_sort b, b_id b)) (bucketsOf uid s)), s))"

text \<open>
  The unique indexes on \<^verbatim>\<open>buckets\<close> that a row with the given identifier, owner and
  name would violate, against the rows \<open>rows\<close>: the primary key, the legacy index on
  \<^verbatim>\<open>(name)\<close>, and the index on \<^verbatim>\<open>(user_id, name)\<close>, in which a \<^verbatim>\<open>NULL\<close> owner never
  conflicts.
\<close>

definition pkConflict :: "int \<Rightarrow> bucket_row list \<Rightarrow> bool" where
  "pkConflict i rows = (i \<in> b_id ` set rows)"

definition nameConflict :: "db \<Rightarrow> string \<Rightarrow> bucket_row list \<Rightarrow> bool" where
  "nameConflict s n rows = (idx_name_unique s \<and> n \<in> b_name ` set rows)"

definition userNameConflict :: "db \<Rightarrow> int option \<Rightarrow> string \<Rightarrow> bucket_row list \<Rightarrow> bool" where
  "userNameConflict s u n rows =
     (idx_user_name_unique s \<and> u \<noteq> None \<and> (u, n) \<in> (\<lambda>b. (b_user b, b_name b)) ` set rows)"

text \<open>
  \<^verbatim>\<open>INSERT INTO buckets (user_id, name, sort_order) VALUES ($1, $2, $3) RETURNING ...\<close>.
  The identifier is drawn from the sequence before the constraints are checked, and
  the sequence keeps its advance when the insert fails.
\<close>

definition insertBucket :: "int \<Rightarrow> string \<Rightarrow> int \<Rightarrow> bucket_row stmt" where
  "insertBucket uid n ord s =
     (if \<not> col_user_id s then (Inl UndefinedColumn, s)
      else if \<not> int4 ord then (Inl NumericOutOfRange, s)
      else
        let i = bucket_seq s;
            s1 = s\<lparr>bucket_seq := i + 1\<rparr>;
            row = \<lparr>b_id = i, b_user = Some uid, b_name = n, b_sort = ord\<rparr>
        in if pkConflict i (buckets s) \<or> nameConflict s n (buckets s)
              \<or> userNameConflict s (Some uid) n (buckets s)
             then (Inl UniqueViolation, s1)
           else if uid \<notin> set (users s) then (Inl ForeignKeyViolation, s1)
           else (Inr row, s1\<lparr>buckets := buckets s @ [row]\<rparr>))"

definition LimitExceeded :: failure where
  "LimitExceeded = Http 400 ''Maximum 5 habits allowed''"

definition NotFound :: failure where
  "NotFound = Http 404 ''Bucket not found''"

text \<open>A handler reports an exception of a statement as \<open>Thrown\<close>.\<close>

definition runStmt :: "'a stmt \<Rightarrow> db \<Rightarrow> (failure + 'a) \<times> db" where
  "runStmt m s = (case m s of (Inl e, s') \<Rightarrow> (Inl (Thrown e), s') | (Inr x, s') \<Rightarrow> (Inr x, s'))"

text \<open>\<^verbatim>\<open>SELECT COALESCE(MAX(sort_order), 0) FROM buckets WHERE user_id = $1\<close>\<close>

definition maxSortOrder :: "int \<Rightarrow> db \<Rightarrow> int" where
  "maxSortOrder uid s = (case map b_sort (bucketsOf uid s) of [] \<Rightarrow> 0 | x # xs \<Rightarrow> fold max xs x)"

definition bucketsPost :: "int \<Rightarrow> bucket_payload option \<Rightarrow> db \<Rightarrow> (failure + bucket_row) \<times> db" where
  "bucketsPost userId payload s =
     (case payload of
        None \<Rightarrow> (Inl (Http 400 ''Missing payload''), s)
      | Some p \<Rightarrow>
          (case optTrim (p_name p) of
             Inl err \<Rightarrow> (Inl err, s)
           | Inr None \<Rightarrow> (Inl (Http 400 ''Bucket name required''), s)
           | Inr (Some n) \<Rightarrow>
               if n = [] then (Inl (Http 400 ''Bucket name required''), s)
               else if \<not> col_user_id s then (Inl (Thrown UndefinedColumn), s)
               else if length (bucketsOf userId s) \<ge> MAX_BUCKETS_PER_USER then (Inl LimitExceeded, s)
               else
                 let nextOrder = maxSortOrder userId s + 1
                 in runStmt (insertBucket userId n nextOrder) s))"

text \<open>
  \<^verbatim>\<open>UPDATE buckets SET name = COALESCE($1, name), sort_order = COALESCE($2, sort_order)
  WHERE id = $3 AND user_id = $4 RETURNING ...\<close>: every matching row is rewritten, and
  the statement fails as a whole when a rewritten row collides with another row on a
  unique index.
\<close>

definition rewriteBucket :: "string option \<Rightarrow> int option \<Rightarrow> bucket_row \<Rightarrow> bucket_row" where
  "rewriteBucket n ord b =
     b\<lparr>b_name := (case n of None \<Rightarrow> b_name b | Some n' \<Rightarrow> n'),
       b_sort := (case ord of None \<Rightarrow> b_sort b | Some o' \<Rightarrow> o')\<rparr>"

definition updateBucket :: "int \<Rightarrow> int \<Rightarrow> string option \<Rightarrow> int option \<Rightarrow> bucket_row list stmt" where
  "updateBucket i uid n ord s =
     (if \<not> col_user_id s then (Inl UndefinedColumn, s)
      else if (case ord of None \<Rightarrow> False | Some o' \<Rightarrow> \<not> int4 o') then (Inl NumericOutOfRange, s)
      else
        let hit = (\<lambda>b. b_id b = i \<and> b_user b = Some uid);
            others = filter (\<lambda>b. \<not> hit b) (buckets s);
            rows = map (\<lambda>b. if hit b then rewriteBucket n ord b else b) (buckets s)
        in if (\<exists>b \<in> set (filter hit rows).
                 nameConflict s (b_name b) others \<or> userNameConflict s (b_user b) (b_name b) others)
             then (Inl UniqueViolation, s)
           else (Inr (filter hit rows), s\<lparr>buckets := rows\<rparr>))"

text \<open>\<^verbatim>\<open>SELECT id FROM buckets WHERE id = $1 AND user_id = $2\<close>\<close>

definition ownerCheck :: "int \<Rightarrow> int \<Rightarrow> db \<Rightarrow> bucket_row list" where
  "ownerCheck i uid s = filter (\<lambda>b. b_id b = i \<and> b_user b = Some uid) (buckets s)"

text \<open>
  The PUT branch. The reply is \<^verbatim>\<open>rows[0]\<close> of the update, \<open>None\<close> when it returned
  no row.
\<close>

definition bucketsPut :: "int \<Rightarrow> bucket_payload option \<Rightarrow> db \<Rightarrow> (failure + bucket_row option) \<times> db" where
  "bucketsPut userId payload s =
     (case payload of
        None \<Rightarrow> (Inl (Http 400 ''Missing payload''), s)
      | Some p \<Rightarrow>
          if \<not> truthyId (p_id p) then (Inl (Http 400 ''Bucket id required''), s)
          else if \<not> col_user_id s then (Inl (Thrown UndefinedColumn), s)
          else if ownerCheck (the (p_id p)) userId s = [] then (Inl NotFound, s)
          else
            (case optTrim (p_name p) of
               Inl err \<Rightarrow> (Inl err, s)
             | Inr n \<Rightarrow>
                 let newName = (case n of None \<Rightarrow> None | Some t \<Rightarrow> if t = [] then None else Some t);
                     newOrder = integerOrNull (p_sortOrder p)
                 in (case runStmt (updateBucket (the (p_id p)) userId newName newOrder) s of
                       (Inl err, s') \<Rightarrow> (Inl err, s')
                     | (Inr rows, s') \<Rightarrow> (Inr (case rows of [] \<Rightarrow> None | r # rs \<Rightarrow> Some r), s'))))"

text \<open>
  \<^verbatim>\<open>DELETE FROM buckets WHERE ...\<close>: the foreign key of \<^verbatim>\<open>entries.bucket_id\<close> is
  \<^verbatim>\<open>ON DELETE CASCADE\<close>, so the entries of a deleted bucket go with it.
\<close>

definition deleteBuckets :: "(bucket_row \<Rightarrow> bool) \<Rightarrow> db \<Rightarrow> db" where
  "deleteBuckets gone s =
     (let dead = b_id ` set (filter gone (buckets s))
      in s\<lparr>buckets := filter (\<lambda>b. \<not> gone b) (buckets s),
           entries := filter (\<lambda>e. e_bucket e \<notin> dead) (entries s)\<rparr>)"

definition bucketsDelete :: "int \<Rightarrow> bucket_payload option \<Rightarrow> db \<Rightarrow> (failure + unit) \<times> db" where
  "bucketsDelete userId payload s =
     (case payload of
        None \<Rightarrow> (Inl (Http 400 ''Missing payload''), s)
      | Some p \<Rightarrow>
          if \<not> truthyId (p_id p) then (Inl (Http 400 ''Bucket id required''), s)
          else if \<not> col_user_id s then (Inl (Thrown UndefinedColumn), s)
          else if ownerCheck (the (p_id p)) userId s = [] then (Inl NotFound, s)
          else (Inr (), deleteBuckets (\<lambda>b. b_id b = the (p_id p) \<and> b_user b = Some userId) s))"

section \<open>Seeding and admin reset\<close>

text \<open>
  \<^verbatim>\<open>INSERT INTO buckets (user_id, name, sort_order) VALUES ($1, $2, $3)
  ON CONFLICT (user_id, name) DO NOTHING\<close>: the conflict target needs the unique index
  on \<^verbatim>\<open>(user_id, name)\<close>; a conflict on that index skips the row, a conflict on any
  other index is an error.
\<close>

definition insertBucketOnConflictUserName :: "int \<Rightarrow> string \<times> int \<Rightarrow> unit stmt" where
  "insertBucketOnConflictUserName uid bucket s =
     (if \<not> col_user_id s then (Inl UndefinedColumn, s)
      else if \<not> idx_user_name_unique s then (Inl InvalidOnConflict, s)
      else
        let i = bucket_seq s;
            s1 = s\<lparr>bucket_seq := i + 1\<rparr>;
            row = \<lparr>b_id = i, b_user = Some uid, b_name = fst bucket, b_sort = snd bucket\<rparr>
        in if userNameConflict s (Some uid) (fst bucket) (buckets s) then (Inr (), s1)
           else if pkConflict i (buckets s) \<or> nameConflict s (fst bucket) (buckets s)
             then (Inl UniqueViolation, s1)
           else if uid \<notin> set (users s) then (Inl ForeignKeyViolation, s1)
           else (Inr (), s1\<lparr>buckets := buckets s @ [row]\<rparr>))"

definition seedBucketsForUser :: "int \<Rightarrow> unit stmt" where
  "seedBucketsForUser userId =
     bindS needUserIdColumn (\<lambda>u s.
       if bucketsOf userId s \<noteq> [] then (Inr (), s)
       else forEach DEFAULT_BUCKETS (insertBucketOnConflictUserName userId) s)"

definition resetData :: "unit stmt" where
  "resetData s =
     (let s1 = s\<lparr>entries := []\<rparr>;
          s2 = deleteBuckets (\<lambda>b. True) s1
      in forEach (users s2) seedBucketsForUser s2)"

section \<open>The migration script\<close>

text \<open>
  The \<^verbatim>\<open>CREATE TABLE IF NOT EXISTS\<close> statements leave existing tables alone; a store
  without tables is the store with empty tables and no \<^verbatim>\<open>user_id\<close> column.

  \<^verbatim>\<open>INSERT INTO buckets (user_id, name, sort_order) VALUES ($1, $2, $3) ON CONFLICT DO NOTHING\<close>:
  without a conflict target, a conflict on any unique index skips the row.
\<close>

definition insertBucketOnConflictNothing :: "int \<Rightarrow> bucket_row \<Rightarrow> unit stmt" where
  "insertBucketOnConflictNothing uid bucket s =
     (let i = bucket_seq s;
          s1 = s\<lparr>bucket_seq := i + 1\<rparr>;
          row = \<lparr>b_id = i, b_user = Some uid, b_name = b_name bucket, b_sort = b_sort bucket\<rparr>
      in if pkConflict i (buckets s) \<or> nameConflict s (b_name bucket) (buckets s)
            \<or> userNameConflict s (Some uid) (b_name bucket) (buckets s)
           then (Inr (), s1)
         else if uid \<notin> set (users s) then (Inl ForeignKeyViolation, s1)
         else (Inr (), s1\<lparr>buckets := buckets s @ [row]\<rparr>))"

text \<open>
  \<^verbatim>\<open>UPDATE entries SET bucket_id = $1 WHERE user_id = $2 AND bucket_id = $3\<close>: fails as
  a whole when a moved row meets a row with the same \<^verbatim>\<open>(user_id, bucket_id, date)\<close>.
\<close>

definition repointEntries :: "int \<Rightarrow> int \<Rightarrow> int \<Rightarrow> unit stmt" where
  "repointEntries newId uid oldId s =
     (let hit = (\<lambda>e. e_user e = uid \<and> e_bucket e = oldId);
          rows = map (\<lambda>e. if hit e then e\<lparr>e_bucket := newId\<rparr> else e) (entries s)
      in if newId \<noteq> oldId \<and> (\<exists>e \<in> set (filter hit (entries s)).
               (uid, newId, e_date e) \<in> entryKey ` set (entries s))
           then (Inl UniqueViolation, s)
         else (Inr (), s\<lparr>entries := rows\<rparr>))"

text \<open>
  The second pair of loops: for each user and each legacy bucket,
  \<^verbatim>\<open>SELECT id FROM buckets WHERE user_id = $1 AND name = $2 LIMIT 1\<close> (the first such
  row of the table), and the update when a row was found.
\<close>

definition relinkOne :: "int \<Rightarrow> bucket_row \<Rightarrow> unit stmt" where
  "relinkOne uid globalBucket s =
     (case filter (\<lambda>b. b_user b = Some uid \<and> b_name b = b_name globalBucket) (buckets s) of
        [] \<Rightarrow> (Inr (), s)
      | userBucket # rest \<Rightarrow> repointEntries (b_id userBucket) uid (b_id globalBucket) s)"

text \<open>\<^verbatim>\<open>ALTER TABLE buckets ALTER COLUMN user_id SET NOT NULL\<close>\<close>

definition setUserIdNotNull :: "unit stmt" where
  "setUserIdNotNull s =
     (if \<exists>b \<in> set (buckets s). b_user b = None then (Inl NotNullViolation, s)
      else (Inr (), s\<lparr>user_id_not_null := True\<rparr>))"

text \<open>\<^verbatim>\<open>CREATE UNIQUE INDEX IF NOT EXISTS buckets_user_name_unique ON buckets(user_id, name)\<close>\<close>

definition createUserNameIndex :: "unit stmt" where
  "createUserNameIndex s =
     (if idx_user_name_unique s then (Inr (), s)
      else if \<not> distinct (map (\<lambda>b. (b_user b, b_name b)) (filter (\<lambda>b. b_user b \<noteq> None) (buckets s)))
        then (Inl UniqueViolation, s)
      else (Inr (), s\<lparr>idx_user_name_unique := True\<rparr>))"

text \<open>
  The steps of \<^verbatim>\<open>migrate\<close> in the order of the script:
  \<^verbatim>\<open>ALTER TABLE buckets ADD COLUMN user_id\<close> (every existing row gets a \<^verbatim>\<open>NULL\<close> owner),
  the two pairs of loops over \<^verbatim>\<open>allUsers\<close> and \<^verbatim>\<open>globalBuckets\<close>,
  \<^verbatim>\<open>DELETE FROM buckets WHERE user_id IS NULL\<close>, and
  \<^verbatim>\<open>DROP INDEX IF EXISTS buckets_name_unique\<close>.
\<close>

definition addUserIdColumn :: "db \<Rightarrow> db" where
  "addUserIdColumn s = s\<lparr>col_user_id := True, buckets := map (\<lambda>b. b\<lparr>b_user := None\<rparr>) (buckets s)\<rparr>"

definition cloneGlobalBuckets :: "int list \<Rightarrow> bucket_row list \<Rightarrow> unit stmt" where
  "cloneGlobalBuckets allUsers globalBuckets =
     forEach allUsers (\<lambda>user. forEach globalBuckets (insertBucketOnConflictNothing user))"

definition relinkEntries :: "int list \<Rightarrow> bucket_row list \<Rightarrow> unit stmt" where
  "relinkEntries allUsers globalBuckets =
     forEach allUsers (\<lambda>user. forEach globalBuckets (relinkOne user))"

definition deleteGlobalBuckets :: "unit stmt" where
  "deleteGlobalBuckets s = (Inr (), deleteBuckets (\<lambda>b. b_user b = None) s)"

definition dropNameIndex :: "unit stmt" where
  "dropNameIndex s = (Inr (), s\<lparr>idx_name_unique := False\<rparr>)"

definition migrate :: "unit stmt" where
  "migrate s =
     (if \<not> col_user_id s then
        let s1 = addUserIdColumn s;
            globalBuckets = filter (\<lambda>b. b_user b = None) (buckets s1);
            allUsers = users s1
        in bindS
             (\<lambda>s. if globalBuckets \<noteq> [] \<and> allUsers \<noteq> [] then
                     bindS (cloneGlobalBuckets allUsers globalBuckets)
                       (\<lambda>u. bindS (relinkEntries allUsers globalBuckets)
                         (\<lambda>u. deleteGlobalBuckets)) s
                   else (Inr (), s))
             (\<lambda>u. bindS setUserIdNotNull
               (\<lambda>u. bindS dropNameIndex
                 (\<lambda>u. createUserNameIndex))) s1
      else (Inr (), s))"

text \<open>
  \<^verbatim>\<open>SELECT u.id FROM users u LEFT JOIN buckets b ON b.user_id = u.id GROUP BY u.id
  HAVING COUNT(b.id) = 0\<close>, then the default buckets for each such user.
\<close>

definition seedDefaultBuckets :: "unit stmt" where
  "seedDefaultBuckets =
     bindS needUserIdColumn (\<lambda>u s.
       let usersWithoutBuckets = filter (\<lambda>uid. bucketsOf uid s = []) (users s)
       in forEach usersWithoutBuckets (\<lambda>uid.
            forEach DEFAULT_BUCKETS (insertBucketOnConflictUserName uid)) s)"

text \<open>The script: \<^verbatim>\<open>await migrate(); await seedDefaultBuckets()\<close>.\<close>

definition runMigration :: "unit stmt" where
  "runMigration = bindS migrate (\<lambda>u. seedDefaultBuckets)"

section \<open>Entry ledger: GET /api/checkins\<close>

text \<open>
  A month key \<^verbatim>\<open>YYYY-MM\<close> is the pair of its year and month.
  \<^verbatim>\<open>monthBounds\<close>: \<^verbatim>\<open>Date.UTC(year, monthPart - 1, 1)\<close> is the first day of the month and
  \<^verbatim>\<open>Date.UTC(year, monthPart, 0)\<close> the day before the first day of the next month.
\<close>

type_synonym month = "int \<times> int"

definition firstOfNextMonth :: "month \<Rightarrow> date" where
  "firstOfNextMonth m = (if snd m = 12 then isoDate (fst m + 1) 1 1 else isoDate (fst m) (snd m + 1) 1)"

definition monthBounds :: "month \<Rightarrow> date \<times> date" where
  "monthBounds m = (isoDate (fst m) (snd m) 1, firstOfNextMonth m - 1)"

text \<open>\<^verbatim>\<open>SELECT ... FROM entries WHERE date BETWEEN $1 AND $2\<close>\<close>

definition checkinsGet :: "month \<Rightarrow> db \<Rightarrow> entry_row list" where
  "checkinsGet m s =
     (let (start, end) = monthBounds m
      in filter (\<lambda>e. start \<le> e_date e \<and> e_date e \<le> end) (entries s))"

section \<open>Derived statistics (client)\<close>

text \<open>
  The client's \<^verbatim>\<open>Bucket\<close> and \<^verbatim>\<open>Entry\<close> values; an \<^verbatim>\<open>Entry\<close> has the fields of a row of
  \<^verbatim>\<open>entries\<close>.
\<close>

record bucket =
  bk_id :: int
  bk_userId :: int
  bk_name :: string
  bk_sortOrder :: int

type_synonym entry = entry_row

definition getBucketsForUser :: "bucket list \<Rightarrow> int \<Rightarrow> bucket list" where
  "getBucketsForUser allBuckets userId = filter (\<lambda>b. bk_userId b = userId) allBuckets"

subsection \<open>Streak\<close>




subsection \<open>Monthly completion percentage\<close>

text \<open>\<^verbatim>\<open>new Date(year, monthPart, 0).getDate()\<close>: the number of days of the month.\<close>

definition daysInMonth :: "month \<Rightarrow> int" where
  "daysInMonth m = firstOfNextMonth m - isoDate (fst m) (snd m) 1"

text \<open>
  \<^verbatim>\<open>activeDaysInMonth\<close>: the loop over \<^verbatim>\<open>day = 1 .. daysInMonth\<close>, counting the days
  between the epoch date and today.
\<close>

definition activeDaysInMonth :: "date \<Rightarrow> date \<Rightarrow> month \<Rightarrow> nat" where
  "activeDaysInMonth epoch today m =
     fold (\<lambda>day count. let d = isoDate (fst m) (snd m) day
                        in if d \<ge> epoch \<and> d \<le> today then count + 1 else count)
          [1 .. daysInMonth m] 0"

text \<open>
  \<^verbatim>\<open>monthlyCompletionCounts\<close>: the loop over the entries that fills a
  \<^verbatim>\<open>Map<number, number>\<close> from user identifiers to counts.
\<close>

definition countEntry :: "date \<Rightarrow> date \<Rightarrow> bucket list \<Rightarrow> entry \<Rightarrow> (int \<rightharpoonup> nat) \<Rightarrow> (int \<rightharpoonup> nat)" where
  "countEntry epoch today allBuckets e m =
     (if \<not> e_checked e then m
      else if e_date e < epoch \<or> e_date e > today then m
      else case find (\<lambda>b. bk_id b = e_bucket e) allBuckets of
             None \<Rightarrow> m
           | Some b \<Rightarrow>
               if bk_userId b \<noteq> e_user e then m
               else m(e_user e \<mapsto> (case m (e_user e) of None \<Rightarrow> 0 | Some c \<Rightarrow> c) + 1))"

definition monthlyCompletionCounts :: "date \<Rightarrow> date \<Rightarrow> bucket list \<Rightarrow> entry list \<Rightarrow> (int \<rightharpoonup> nat)" where
  "monthlyCompletionCounts epoch today allBuckets entriesL =
     fold (countEntry epoch today allBuckets) entriesL Map.empty"

definition getTotalPossibleForUser :: "date \<Rightarrow> date \<Rightarrow> month \<Rightarrow> bucket list \<Rightarrow> int \<Rightarrow> nat" where
  "getTotalPossibleForUser epoch today m allBuckets userId =
     length (getBucketsForUser allBuckets userId) * activeDaysInMonth epoch today m"

text \<open>
  JavaScript numbers are IEEE 754 binary64 values, and \<^verbatim>\<open>/\<close> and \<^verbatim>\<open>*\<close> round the exact
  result to the nearest such value, ties to the even significand. A finite number is
  modelled by the rational it denotes. \<open>fl64 x\<close> is the rounding of a rational
  \<open>x \<ge> 0\<close> of the normal range: with \<open>2^e \<le> x < 2^(e+1)\<close> it is the nearest multiple
  of \<open>2^(e-52)\<close>.
\<close>

fun bitLength :: "nat \<Rightarrow> nat" where
  "bitLength n = (if n = 0 then 0 else Suc (bitLength (n div 2)))"

declare bitLength.simps [simp del]

definition floorLog2 :: "rat \<Rightarrow> int" where
  "floorLog2 x =
     (let (p, q) = quotient_of x;
          e0 = int (bitLength (nat p)) - int (bitLength (nat q))
      in if 2 powi e0 \<le> x then e0 else e0 - 1)"

definition roundTiesToEven :: "rat \<Rightarrow> int" where
  "roundTiesToEven x =
     (let f = \<lfloor>x\<rfloor>; r = x - of_int f
      in if r < 1 / 2 then f
         else if 1 / 2 < r then f + 1
         else if even f then f else f + 1)"

definition fl64 :: "rat \<Rightarrow> rat" where
  "fl64 x =
     (if x = 0 then 0
      else let e = floorLog2 x
           in of_int (roundTiesToEven (x * 2 powi (52 - e))) * 2 powi (e - 52))"

definition jsDivide :: "rat \<Rightarrow> rat \<Rightarrow> rat" where
  "jsDivide a b = fl64 (a / b)"

definition jsTimes :: "rat \<Rightarrow> rat \<Rightarrow> rat" where
  "jsTimes a b = fl64 (a * b)"

text \<open>\<^verbatim>\<open>Math.round\<close>: the nearest integer, a tie going up.\<close>

definition mathRound :: "rat \<Rightarrow> int" where
  "mathRound x = \<lfloor>x + 1 / 2\<rfloor>"

text \<open>
  \<^verbatim>\<open>totalPossible ? Math.round((completedCount / totalPossible) * 100) : 0\<close>
\<close>

definition percent :: "nat \<Rightarrow> nat \<Rightarrow> int" where
  "percent completedCount totalPossible =
     (if totalPossible \<noteq> 0
      then mathRound (jsTimes (jsDivide (of_nat completedCount) (of_nat totalPossible)) 100)
      else 0)"

text \<open>
  The percentage shown on the card of the user \<open>friendId\<close>:
  \<^verbatim>\<open>monthlyCompletionCounts.get(friend.id) || 0\<close> against
  \<^verbatim>\<open>getTotalPossibleForUser(friend.id)\<close>.
\<close>

definition statPercent :: "date \<Rightarrow> date \<Rightarrow> month \<Rightarrow> bucket list \<Rightarrow> entry list \<Rightarrow> int \<Rightarrow> int" where
  "statPercent epoch today m allBuckets entriesL friendId =
     (let completedCount = (case monthlyCompletionCounts epoch today allBuckets entriesL friendId of
                              None \<Rightarrow> 0 | Some c \<Rightarrow> c);
          totalPossible = getTotalPossibleForUser epoch today m allBuckets friendId
      in percent completedCount totalPossible)"

section \<open>Example stores\<close>

text \<open>
  A migrated store with two users who own one bucket each, and the server time at
  noon UTC of a day.
\<close>

definition exampleDb :: db where
  "exampleDb = \<lparr>users = [1, 2],
      buckets = [\<lparr>b_id = 1, b_user = Some 1, b_name = ''Strength'', b_sort = 1\<rparr>,
                 \<lparr>b_id = 2, b_user = Some 2, b_name = ''Cardio'', b_sort = 1\<rparr>],
      entries = [], bucket_seq = 3, col_user_id = True, user_id_not_null = True,
      idx_name_unique = False, idx_user_name_unique = True\<rparr>"

definition noon :: "date \<Rightarrow> int" where
  "noon d = d * msPerDay + 43200000"

text \<open>What a rename must keep of a row: its identifier, its owner and its sort position.\<close>

definition bucketPosition :: "bucket_row \<Rightarrow> int \<times> int option \<times> int" where
  "bucketPosition b = (b_id b, b_user b, b_sort b)"






text \<open>
  What seeding may do to a store: the users and the \<^verbatim>\<open>user_id\<close> column stay, and a user
  who has a bucket keeps having one.
\<close>

definition seedStep :: "db \<Rightarrow> db \<Rightarrow> bool" where
  "seedStep s s' =
     (users s' = users s \<and> col_user_id s' = col_user_id s
      \<and> (\<forall>v. bucketsOf v s \<noteq> [] \<longrightarrow> bucketsOf v s' \<noteq> []))"

text \<open>
  Legacy stores, as the previous version of the application leaves them: one user,
  global buckets without owner column, an entry of the user on a global bucket. The
  first has the legacy unique index on \<^verbatim>\<open>(name)\<close> that the previous \<^verbatim>\<open>ensureSchema\<close>
  creates, the second has not.
\<close>

definition legacyDb :: db where
  "legacyDb = \<lparr>users = [1],
      buckets = [\<lparr>b_id = 1, b_user = None, b_name = ''10 min calisthenics'', b_sort = 1\<rparr>],
      entries = [\<lparr>e_user = 1, e_bucket = 1, e_date = isoDate 2024 4 14, e_checked = True\<rparr>],
      bucket_seq = 2, col_user_id = False, user_id_not_null = False,
      idx_name_unique = True, idx_user_name_unique = False\<rparr>"

definition legacyDbNoIndex :: db where
  "legacyDbNoIndex = legacyDb\<lparr>idx_name_unique := False\<rparr>"

text \<open>
  The invariant of the bucket registry on a migrated store: the owner column and the
  unique index on \<^verbatim>\<open>(user_id, name)\<close> exist, identifiers are unique, and every user has
  at most five buckets with pairwise different names.
\<close>

definition registryInvariant :: "db \<Rightarrow> bool" where
  "registryInvariant s =
     (col_user_id s \<and> idx_user_name_unique s \<and> distinct (map b_id (buckets s))
      \<and> (\<forall>u. length (bucketsOf u s) \<le> MAX_BUCKETS_PER_USER \<and> distinct (map b_name (bucketsOf u s))))"

text \<open>
  The operations on the registry: the three mutating requests of a user,
  \<^verbatim>\<open>seedBucketsForUser\<close>, the admin reset and the migration script. Each is taken with
  the store it leaves, whatever its outcome.
\<close>

datatype operation =
    Create int "bucket_payload option"
  | Rename int "bucket_payload option"
  | Delete int "bucket_payload option"
  | Seed int
  | AdminReset
  | Migration

fun perform :: "operation \<Rightarrow> db \<Rightarrow> db" where
  "perform (Create uid payload) s = snd (bucketsPost uid payload s)"
| "perform (Rename uid payload) s = snd (bucketsPut uid payload s)"
| "perform (Delete uid payload) s = snd (bucketsDelete uid payload s)"
| "perform (Seed uid) s = snd (seedBucketsForUser uid s)"
| "perform AdminReset s = snd (resetData s)"
| "perform Migration s = snd (runMigration s)"


text \<open>
  The effect of seeding the user \<open>uid\<close> with buckets named in \<open>N\<close>: the schema, the
  users and the buckets of the other users stay, identifiers stay unique, and the
  user's names stay pairwise different and grow by names of \<open>N\<close> only.
\<close>

definition seedEffect :: "int \<Rightarrow> string set \<Rightarrow> db \<Rightarrow> db \<Rightarrow> bool" where
  "seedEffect uid N s s' =
     (col_user_id s' = col_user_id s \<and> idx_user_name_unique s' = idx_user_name_unique s
      \<and> users s' = users s
      \<and> (\<forall>v. v \<noteq> uid \<longrightarrow> bucketsOf v s' = bucketsOf v s)
      \<and> (distinct (map b_id (buckets s)) \<longrightarrow> distinct (map b_id (buckets s')))
      \<and> b_name ` set (bucketsOf uid s') \<subseteq> b_name ` set (bucketsOf uid s) \<union> N
      \<and> (distinct (map b_name (bucketsOf uid s)) \<longrightarrow> distinct (map b_name (bucketsOf uid s'))))"

text \<open>
  A legacy store of the first version of the application, which had neither a limit
  on the shared buckets nor a unique index on their names: six global buckets.
\<close>

definition legacySixDb :: db where
  "legacySixDb = \<lparr>users = [1],
      buckets = [\<lparr>b_id = 1, b_user = None, b_name = ''10 min calisthenics'', b_sort = 1\<rparr>,
                 \<lparr>b_id = 2, b_user = None, b_name = ''25 min cardio'', b_sort = 2\<rparr>,
                 \<lparr>b_id = 3, b_user = None, b_name = ''Stretching / mobility'', b_sort = 3\<rparr>,
                 \<lparr>b_id = 4, b_user = None, b_name = ''Meditation'', b_sort = 4\<rparr>,
                 \<lparr>b_id = 5, b_user = None, b_name = ''Reading'', b_sort = 5\<rparr>,
                 \<lparr>b_id = 6, b_user = None, b_name = ''Walk'', b_sort = 6\<rparr>],
      entries = [], bucket_seq = 7, col_user_id = False, user_id_not_null = False,
      idx_name_unique = False, idx_user_name_unique = False\<rparr>"

text \<open>
  The monthly percentage as the specification words it. A bucket identifier is
  currently owned by a user when the bucket list has a bucket with that identifier
  and that owner; the completed count of a user in a month is the number of checked
  entries of the month, dated between the epoch date and today, of the user, on
  buckets the user currently owns; the active days of a month are its days between
  the epoch date and today; \<open>exactRound c t\<close> is \<open>100 \<times> c \<div> t\<close> rounded to the nearest
  integer, a tie going up; and \<open>halfway c t\<close> says that \<open>100 \<times> c \<div> t\<close> is such a tie,
  exactly half-way between two integers.
\<close>

definition ownedBy :: "bucket list \<Rightarrow> int \<Rightarrow> int \<Rightarrow> bool" where
  "ownedBy allBuckets u bid = (\<exists>b \<in> set allBuckets. bk_id b = bid \<and> bk_userId b = u)"

definition completedCount :: "date \<Rightarrow> date \<Rightarrow> bucket list \<Rightarrow> entry list \<Rightarrow> int \<Rightarrow> nat" where
  "completedCount epoch today allBuckets entriesL u =
     length (filter (\<lambda>e. e_checked e \<and> epoch \<le> e_date e \<and> e_date e \<le> today
                          \<and> e_user e = u \<and> ownedBy allBuckets u (e_bucket e)) entriesL)"

definition completedInMonth :: "date \<Rightarrow> date \<Rightarrow> month \<Rightarrow> bucket list \<Rightarrow> entry list \<Rightarrow> int \<Rightarrow> nat" where
  "completedInMonth epoch today m allBuckets entriesL u =
     completedCount epoch today allBuckets
       (filter (\<lambda>e. fst (monthBounds m) \<le> e_date e \<and> e_date e \<le> snd (monthBounds m)) entriesL) u"

definition activeDays :: "date \<Rightarrow> date \<Rightarrow> month \<Rightarrow> nat" where
  "activeDays epoch today m =
     card {d. fst (monthBounds m) \<le> d \<and> d \<le> snd (monthBounds m) \<and> epoch \<le> d \<and> d \<le> today}"

definition exactRound :: "nat \<Rightarrow> nat \<Rightarrow> int" where
  "exactRound c t = \<lfloor>100 * (of_nat c :: rat) / of_nat t + 1 / 2\<rfloor>"

definition halfway :: "nat \<Rightarrow> nat \<Rightarrow> bool" where
  "halfway c t = (2 * t dvd 200 * c + t)"

text \<open>\<^verbatim>\<open>map.get(key) || 0\<close>\<close>

definition got :: "(int \<rightharpoonup> nat) \<Rightarrow> int \<Rightarrow> nat" where
  "got m u = (case m u of None \<Rightarrow> 0 | Some c \<Rightarrow> c)"

text \<open>
  A user with four buckets and 23 checked entries in the first ten days of April
  2024: all four buckets on the first five days, three of them on the sixth.
\<close>

definition tieBuckets :: "bucket list" where
  "tieBuckets = [\<lparr>bk_id = 1, bk_userId = 1, bk_name = ''Strength'', bk_sortOrder = 1\<rparr>,
                 \<lparr>bk_id = 2, bk_userId = 1, bk_name = ''Mobility'', bk_sortOrder = 2\<rparr>,
                 \<lparr>bk_id = 3, bk_userId = 1, bk_name = ''Cardio'', bk_sortOrder = 3\<rparr>,
                 \<lparr>bk_id = 4, bk_userId = 1, bk_name = ''Reading'', bk_sortOrder = 4\<rparr>]"

definition tieEntries :: "entry list" where
  "tieEntries =
     [\<lparr>e_user = 1, e_bucket = b, e_date = isoDate 2024 4 d, e_checked = True\<rparr>. d \<leftarrow> [1 .. 5], b \<leftarrow> [1 .. 4]]
     @ [\<lparr>e_user = 1, e_bucket = b, e_date = isoDate 2024 4 6, e_checked = True\<rparr>. b \<leftarrow> [1 .. 3]]"

text \<open>The store that holds the entries of that user.\<close>

definition tieDb :: db where
  "tieDb = exampleDb\<lparr>entries := tieEntries\<rparr>"

text \<open>
  A user with three buckets and 20 checked entries in the first fifteen days of
  April 2024: all three buckets on the first six days, two of them on the seventh.
\<close>

definition specBuckets :: "bucket list" where
  "specBuckets = [\<lparr>bk_id = 1, bk_userId = 1, bk_name = ''Strength'', bk_sortOrder = 1\<rparr>,
                  \<lparr>bk_id = 2, bk_userId = 1, bk_name = ''Mobility'', bk_sortOrder = 2\<rparr>,
                  \<lparr>bk_id = 3, bk_userId = 1, bk_name = ''Cardio'', bk_sortOrder = 3\<rparr>]"

definition specDb :: db where
  "specDb = exampleDb\<lparr>entries :=
     [\<lparr>e_user = 1, e_bucket = b, e_date = isoDate 2024 4 d, e_checked = True\<rparr>. d \<leftarrow> [1 .. 6], b \<leftarrow> [1 .. 3]]
     @ [\<lparr>e_user = 1, e_bucket = b, e_date = isoDate 2024 4 7, e_checked = True\<rparr>. b \<leftarrow> [1 .. 2]]\<rparr>"

section \<open>Properties of the entry ledger\<close>

lemma utcDay_setDateBack: "utcDay (setDateBack now k) = utcDay now - k"
  by (simp add: utcDay_def setDateBack_def msPerDay_def)

lemma upsertEntry_entries:
  "upsertEntry uid bid d c s = Inr s' \<Longrightarrow>
   entries s' = (if (uid, bid, d) \<in> entryKey ` set (entries s)
                 then map (\<lambda>e. if entryKey e = (uid, bid, d) then e\<lparr>e_checked := c\<rparr> else e) (entries s)
                 else entries s @ [\<lparr>e_user = uid, e_bucket = bid, e_date = d, e_checked = c\<rparr>])"
  unfolding upsertEntry_def by (auto split: if_splits)

lemma entryKey_checked [simp]: "entryKey (e\<lparr>e_checked := c\<rparr>) = entryKey e"
  by (simp add: entryKey_def)

lemma upsertEntry_stored:
  assumes "upsertEntry uid bid d c s = Inr s'"
  shows "(\<exists>e\<in>set (entries s'). entryKey e = (uid, bid, d))
       \<and> (\<forall>e\<in>set (entries s'). entryKey e = (uid, bid, d) \<longrightarrow> e_checked e = c)"
proof (cases "(uid, bid, d) \<in> entryKey ` set (entries s)")
  case True
  then obtain e0 where e0: "e0 \<in> set (entries s)" "entryKey e0 = (uid, bid, d)" by auto
  have es: "entries s' = map (\<lambda>e. if entryKey e = (uid, bid, d) then e\<lparr>e_checked := c\<rparr> else e) (entries s)"
    using upsertEntry_entries[OF assms] True by simp
  have "e0\<lparr>e_checked := c\<rparr> \<in> set (entries s')"
    unfolding es using e0 by (simp add: image_iff) (rule bexI[where x=e0], simp_all)
  moreover have "entryKey (e0\<lparr>e_checked := c\<rparr>) = (uid, bid, d)" using e0 by simp
  moreover have "\<forall>e\<in>set (entries s'). entryKey e = (uid, bid, d) \<longrightarrow> e_checked e = c"
    unfolding es by auto
  ultimately show ?thesis by blast
next
  case False
  have es: "entries s' = entries s @ [\<lparr>e_user = uid, e_bucket = bid, e_date = d, e_checked = c\<rparr>]"
    using upsertEntry_entries[OF assms] False by simp
  show ?thesis using False unfolding es by (auto simp: entryKey_def)
qed

text \<open>
  Claim C10. Whenever the POST handler accepts a request, the row of the caller, the
  requested bucket and the requested date exists afterwards, and its checked flag is
  true unless the \<^verbatim>\<open>checked\<close> field of the body is exactly the boolean false: an
  absent field, null, a number or a string (also the string "false") stores true.
\<close>

theorem checkinsPost_checked_coercion:
  assumes "checkinsPost uid now payload s = (Inr (), s')"
  shows "\<exists>p bid d. payload = Some p \<and> p_bucketId p = Some bid \<and> p_date p = Some d
     \<and> (\<exists>e\<in>set (entries s'). entryKey e = (uid, bid, d))
     \<and> (\<forall>e\<in>set (entries s'). entryKey e = (uid, bid, d)
            \<longrightarrow> e_checked e = (p_checked p \<noteq> Some (JBool False)))"
proof -
  from assms obtain p bid d where p: "payload = Some p" "p_bucketId p = Some bid" "p_date p = Some d"
    and up: "upsertEntry uid bid d (notStrictlyFalse (p_checked p)) s = Inr s'"
    unfolding checkinsPost_def Let_def
    by (auto split: option.splits if_splits sum.splits)
  have "notStrictlyFalse (p_checked p) = (p_checked p \<noteq> Some (JBool False))"
    by (cases "p_checked p" rule: notStrictlyFalse.cases) auto
  with upsertEntry_stored[OF up] p show ?thesis by auto
qed

theorem checkinsPost_checked_coercion_witness:
  "checkinsPost 1 (noon (isoDate 2024 4 15))
      (Some \<lparr>p_bucketId = Some 1, p_date = Some (isoDate 2024 4 15), p_checked = Some (JStr ''false'')\<rparr>)
      exampleDb
     = (Inr (), exampleDb\<lparr>entries :=
          [\<lparr>e_user = 1, e_bucket = 1, e_date = isoDate 2024 4 15, e_checked = True\<rparr>]\<rparr>)
   \<and> (\<exists>e\<in>set (entries (exampleDb\<lparr>entries :=
          [\<lparr>e_user = 1, e_bucket = 1, e_date = isoDate 2024 4 15, e_checked = True\<rparr>]\<rparr>)).
         entryKey e = (1, 1, isoDate 2024 4 15)
         \<and> e_checked e = (Some (JStr ''false'') \<noteq> Some (JBool False)))"
proof -
  have run: "checkinsPost 1 (noon (isoDate 2024 4 15))
      (Some \<lparr>p_bucketId = Some 1, p_date = Some (isoDate 2024 4 15), p_checked = Some (JStr ''false'')\<rparr>)
      exampleDb
     = (Inr (), exampleDb\<lparr>entries :=
          [\<lparr>e_user = 1, e_bucket = 1, e_date = isoDate 2024 4 15, e_checked = True\<rparr>]\<rparr>)"
    by (simp add: checkinsPost_def exampleDb_def noon_def isoDate_def utcDay_def setDateBack_def
        msPerDay_def upsertEntry_def int4_def entryKey_def)
  from checkinsPost_checked_coercion[OF run] obtain p bid d
    where eq: "Some \<lparr>p_bucketId = Some 1, p_date = Some (isoDate 2024 4 15), p_checked = Some (JStr ''false'')\<rparr> = Some p"
      and "p_bucketId p = Some bid" and "p_date p = Some d"
      and ex: "\<exists>e\<in>set (entries (exampleDb\<lparr>entries :=
          [\<lparr>e_user = 1, e_bucket = 1, e_date = isoDate 2024 4 15, e_checked = True\<rparr>]\<rparr>)).
            entryKey e = (1, bid, d)"
      and all: "\<forall>e\<in>set (entries (exampleDb\<lparr>entries :=
          [\<lparr>e_user = 1, e_bucket = 1, e_date = isoDate 2024 4 15, e_checked = True\<rparr>]\<rparr>)).
            entryKey e = (1, bid, d) \<longrightarrow> e_checked e = (p_checked p \<noteq> Some (JBool False))"
    by blast
  then have "p_checked p = Some (JStr ''false'')" "bid = 1" "d = isoDate 2024 4 15"
    by auto
  with ex all have "\<exists>e\<in>set (entries (exampleDb\<lparr>entries :=
          [\<lparr>e_user = 1, e_bucket = 1, e_date = isoDate 2024 4 15, e_checked = True\<rparr>]\<rparr>)).
         entryKey e = (1, 1, isoDate 2024 4 15)
         \<and> e_checked e = (Some (JStr ''false'') \<noteq> Some (JBool False))"
    by simp
  with run show ?thesis by (rule conjI)
qed

text \<open>
  Claim C1, on the code: the POST handler never looks at the owner of the bucket.
  User 1 posts a check-in for bucket 2, which belongs to user 2 (the ownership query
  of the bucket handlers finds no row); the request is accepted and the row is
  written.
\<close>

theorem checkinsPost_accepts_foreign_bucket:
  "ownerCheck 2 1 exampleDb = []
   \<and> checkinsPost 1 (noon (isoDate 2024 4 15))
        (Some \<lparr>p_bucketId = Some 2, p_date = Some (isoDate 2024 4 15), p_checked = Some (JBool True)\<rparr>)
        exampleDb
     = (Inr (), exampleDb\<lparr>entries :=
          [\<lparr>e_user = 1, e_bucket = 2, e_date = isoDate 2024 4 15, e_checked = True\<rparr>]\<rparr>)"
  by (simp add: checkinsPost_def exampleDb_def noon_def isoDate_def utcDay_def setDateBack_def
      msPerDay_def upsertEntry_def int4_def entryKey_def ownerCheck_def)

text \<open>
  Claim C5. The editable window is computed from the server time of the call. A
  request whose date is before the day two days back or after the current day leaves
  the store as it was and is answered with an error, which is \<open>DateOutOfRange\<close>
  whenever the bucket identifier is present; a date inside the window is never
  answered with \<open>DateOutOfRange\<close>, and is accepted when the caller and the bucket
  exist. At any time of 2024-04-15, the date 2024-04-12 is refused and the date
  2024-04-13 is accepted.
\<close>

theorem checkinsPost_date_window:
  "(p_date p = Some d \<and> (d < utcDay now - 2 \<or> utcDay now < d) \<longrightarrow>
       snd (checkinsPost uid now (Some p) s) = s
     \<and> (\<exists>err. fst (checkinsPost uid now (Some p) s) = Inl err)
     \<and> (truthyId (p_bucketId p) \<longrightarrow> fst (checkinsPost uid now (Some p) s) = Inl DateOutOfRange))
   \<and> (p_date p = Some d \<and> utcDay now - 2 \<le> d \<and> d \<le> utcDay now \<longrightarrow>
       fst (checkinsPost uid now (Some p) s) \<noteq> Inl DateOutOfRange
     \<and> (p_bucketId p = Some bid \<and> bid \<noteq> 0 \<and> int4 bid \<and> uid \<in> set (users s)
          \<and> bid \<in> b_id ` set (buckets s) \<longrightarrow> fst (checkinsPost uid now (Some p) s) = Inr ()))
   \<and> (utcDay now' = isoDate 2024 4 15 \<longrightarrow>
       checkinsPost 1 now'
         (Some \<lparr>p_bucketId = Some 1, p_date = Some (isoDate 2024 4 12), p_checked = Some (JBool True)\<rparr>)
         exampleDb = (Inl DateOutOfRange, exampleDb)
     \<and> checkinsPost 1 now'
         (Some \<lparr>p_bucketId = Some 1, p_date = Some (isoDate 2024 4 13), p_checked = Some (JBool True)\<rparr>)
         exampleDb
       = (Inr (), exampleDb\<lparr>entries :=
            [\<lparr>e_user = 1, e_bucket = 1, e_date = isoDate 2024 4 13, e_checked = True\<rparr>]\<rparr>))"
proof (intro conjI impI)
  assume "p_date p = Some d \<and> (d < utcDay now - 2 \<or> utcDay now < d)"
  then show "snd (checkinsPost uid now (Some p) s) = s"
    and "\<exists>err. fst (checkinsPost uid now (Some p) s) = Inl err"
    by (auto simp: checkinsPost_def Let_def utcDay_setDateBack split: option.splits)
next
  assume "p_date p = Some d \<and> (d < utcDay now - 2 \<or> utcDay now < d)" and "truthyId (p_bucketId p)"
  then show "fst (checkinsPost uid now (Some p) s) = Inl DateOutOfRange"
    by (auto simp: checkinsPost_def Let_def utcDay_setDateBack split: option.splits)
next
  assume "p_date p = Some d \<and> utcDay now - 2 \<le> d \<and> d \<le> utcDay now"
  then show "fst (checkinsPost uid now (Some p) s) \<noteq> Inl DateOutOfRange"
    by (auto simp: checkinsPost_def Let_def utcDay_setDateBack DateOutOfRange_def
        split: option.splits sum.splits)
next
  assume "p_date p = Some d \<and> utcDay now - 2 \<le> d \<and> d \<le> utcDay now"
    and "p_bucketId p = Some bid \<and> bid \<noteq> 0 \<and> int4 bid \<and> uid \<in> set (users s)
          \<and> bid \<in> b_id ` set (buckets s)"
  then show "fst (checkinsPost uid now (Some p) s) = Inr ()"
    by (simp add: checkinsPost_def Let_def utcDay_setDateBack upsertEntry_def)
next
  assume "utcDay now' = isoDate 2024 4 15"
  then show "checkinsPost 1 now'
         (Some \<lparr>p_bucketId = Some 1, p_date = Some (isoDate 2024 4 12), p_checked = Some (JBool True)\<rparr>)
         exampleDb = (Inl DateOutOfRange, exampleDb)"
    by (simp add: checkinsPost_def Let_def utcDay_setDateBack isoDate_def)
next
  assume "utcDay now' = isoDate 2024 4 15"
  then show "checkinsPost 1 now'
         (Some \<lparr>p_bucketId = Some 1, p_date = Some (isoDate 2024 4 13), p_checked = Some (JBool True)\<rparr>)
         exampleDb
       = (Inr (), exampleDb\<lparr>entries :=
            [\<lparr>e_user = 1, e_bucket = 1, e_date = isoDate 2024 4 13, e_checked = True\<rparr>]\<rparr>)"
    by (simp add: checkinsPost_def Let_def utcDay_setDateBack isoDate_def upsertEntry_def
        exampleDb_def int4_def entryKey_def)
qed

theorem checkinsPost_date_window_witness:
  "utcDay (noon (isoDate 2024 4 15)) = isoDate 2024 4 15
   \<and> isoDate 2024 4 12 < utcDay (noon (isoDate 2024 4 15)) - 2
   \<and> checkinsPost 1 (noon (isoDate 2024 4 15))
         (Some \<lparr>p_bucketId = Some 1, p_date = Some (isoDate 2024 4 12), p_checked = Some (JBool True)\<rparr>)
         exampleDb = (Inl DateOutOfRange, exampleDb)
   \<and> utcDay (noon (isoDate 2024 4 15)) - 2 \<le> isoDate 2024 4 13
   \<and> isoDate 2024 4 13 \<le> utcDay (noon (isoDate 2024 4 15))
   \<and> fst (checkinsPost 1 (noon (isoDate 2024 4 15))
         (Some \<lparr>p_bucketId = Some 1, p_date = Some (isoDate 2024 4 13), p_checked = Some (JBool True)\<rparr>)
         exampleDb) = Inr ()"
proof -
  have day: "utcDay (noon (isoDate 2024 4 15)) = isoDate 2024 4 15"
    by (simp add: utcDay_def noon_def msPerDay_def isoDate_def)
  have vals: "isoDate 2024 4 12 = 19825" "isoDate 2024 4 13 = 19826" "isoDate 2024 4 15 = 19828"
    by (simp_all add: isoDate_def)
  note inst = checkinsPost_date_window[where now' = "noon (isoDate 2024 4 15)"
      and now = "noon (isoDate 2024 4 15)" and uid = 1 and s = exampleDb and bid = 1
      and d = "isoDate 2024 4 13"
      and p = "\<lparr>p_bucketId = Some 1, p_date = Some (isoDate 2024 4 13), p_checked = Some (JBool True)\<rparr>"]
  from inst day show ?thesis
    by (simp add: vals exampleDb_def int4_def)
qed

section \<open>Properties of the bucket registry\<close>

lemma bucketPosition_rewrite_None [simp]: "bucketPosition (rewriteBucket n None b) = bucketPosition b"
  by (simp add: bucketPosition_def rewriteBucket_def)

lemma map_bucketPosition_rewrite:
  "map bucketPosition (map (\<lambda>b. if P b then rewriteBucket n None b else b) xs) = map bucketPosition xs"
  by (induction xs) simp_all

lemma snd_runStmt: "snd (runStmt m s) = snd (m s)"
  by (simp add: runStmt_def split: prod.splits sum.splits)

lemma updateBucket_frame:
  "snd (updateBucket i uid n ord s) = s\<lparr>buckets := buckets (snd (updateBucket i uid n ord s))\<rparr>"
  unfolding updateBucket_def Let_def by simp

lemma updateBucket_position:
  "map bucketPosition (buckets (snd (updateBucket i uid n None s))) = map bucketPosition (buckets s)"
  unfolding updateBucket_def Let_def by (simp add: map_bucketPosition_rewrite)

lemma snd_case_reply:
  "snd (case x of (Inl e, s') \<Rightarrow> (Inl e, s') | (Inr r, s') \<Rightarrow> (Inr (f r), s')) = snd x"
  by (simp split: prod.splits sum.splits)

lemma bucketsPut_state:
  "snd (bucketsPut uid payload s) = s
   \<or> (\<exists>p n. payload = Some p \<and>
        snd (bucketsPut uid payload s)
          = snd (updateBucket (the (p_id p)) uid n (integerOrNull (p_sortOrder p)) s))"
proof (cases payload)
  case None
  then show ?thesis by (simp add: bucketsPut_def)
next
  case (Some p)
  show ?thesis
  proof (cases "optTrim (p_name p)")
    case (Inl err)
    then show ?thesis using Some by (simp add: bucketsPut_def)
  next
    case (Inr n)
    then show ?thesis using Some
      by (auto simp: bucketsPut_def Let_def snd_case_reply snd_runStmt)
  qed
qed

text \<open>
  Claim C9. A PUT whose body supplies no sort position changes nothing but bucket
  names: after the request, whatever its outcome, every row of \<^verbatim>\<open>buckets\<close> has the
  identifier, the owner and the sort position it had before, and the rest of the
  store is as it was. This holds in particular for the renamed bucket of the caller.
\<close>

theorem bucketsPut_keeps_sort_position:
  assumes "p_sortOrder p = None"
  shows "map bucketPosition (buckets (snd (bucketsPut uid (Some p) s))) = map bucketPosition (buckets s)
       \<and> snd (bucketsPut uid (Some p) s) = s\<lparr>buckets := buckets (snd (bucketsPut uid (Some p) s))\<rparr>"
proof -
  have io: "integerOrNull (p_sortOrder p) = None" using assms by simp
  from bucketsPut_state[of uid "Some p" s] show ?thesis
  proof
    assume "snd (bucketsPut uid (Some p) s) = s"
    then show ?thesis by simp
  next
    assume "\<exists>p' n. Some p = Some p' \<and>
        snd (bucketsPut uid (Some p) s)
          = snd (updateBucket (the (p_id p')) uid n (integerOrNull (p_sortOrder p')) s)"
    then obtain n where eq: "snd (bucketsPut uid (Some p) s) = snd (updateBucket (the (p_id p)) uid n None s)"
      using io by auto
    have "snd (updateBucket (the (p_id p)) uid n None s)
            = s\<lparr>buckets := buckets (snd (updateBucket (the (p_id p)) uid n None s))\<rparr>"
      by (rule updateBucket_frame)
    with eq updateBucket_position[of "the (p_id p)" uid n s] show ?thesis by simp
  qed
qed

theorem bucketsPut_keeps_sort_position_witness:
  "p_sortOrder \<lparr>p_id = Some 1, p_name = Some (JStr ''Legs''), p_sortOrder = None\<rparr> = None
   \<and> map b_name (buckets (snd (bucketsPut 1
        (Some \<lparr>p_id = Some 1, p_name = Some (JStr ''Legs''), p_sortOrder = None\<rparr>) exampleDb)))
       = [''Legs'', ''Cardio'']
   \<and> map bucketPosition (buckets (snd (bucketsPut 1
        (Some \<lparr>p_id = Some 1, p_name = Some (JStr ''Legs''), p_sortOrder = None\<rparr>) exampleDb)))
       = [(1, Some 1, 1), (2, Some 2, 1)]"
proof -
  have names: "map b_name (buckets (snd (bucketsPut 1
        (Some \<lparr>p_id = Some 1, p_name = Some (JStr ''Legs''), p_sortOrder = None\<rparr>) exampleDb)))
       = [''Legs'', ''Cardio'']"
    by (simp add: bucketsPut_def exampleDb_def ownerCheck_def trim_def isWhiteSpace_def Let_def
        runStmt_def updateBucket_def rewriteBucket_def nameConflict_def userNameConflict_def)
  have before: "map bucketPosition (buckets exampleDb) = [(1, Some 1, 1), (2, Some 2, 1)]"
    by (simp add: exampleDb_def bucketPosition_def)
  have none: "p_sortOrder \<lparr>p_id = Some 1, p_name = Some (JStr ''Legs''), p_sortOrder = None\<rparr> = None"
    by simp
  from bucketsPut_keeps_sort_position[OF none, of 1 exampleDb] names before none
  show ?thesis by simp
qed

text \<open>
  Claim C6, as the code has it. The POST handler has no check of its own for a
  duplicate name. When the caller already owns a bucket with the trimmed name and the
  index on \<^verbatim>\<open>(user_id, name)\<close> exists, no row of \<^verbatim>\<open>buckets\<close> or \<^verbatim>\<open>entries\<close> is
  written, and the request ends with the limit error when the caller has five
  buckets, and otherwise with an exception of the insert that escapes the handler:
  the unique violation (or, when the next sort position leaves the integer range,
  the range error).
\<close>

theorem bucketsPost_duplicate_name:
  assumes name: "p_name p = Some (JStr str)" "trim str \<noteq> []"
    and schema: "col_user_id s" "idx_user_name_unique s"
    and dup: "\<exists>b\<in>set (buckets s). b_user b = Some uid \<and> b_name b = trim str"
  shows "buckets (snd (bucketsPost uid (Some p) s)) = buckets s
       \<and> entries (snd (bucketsPost uid (Some p) s)) = entries s
       \<and> fst (bucketsPost uid (Some p) s)
           = Inl (if length (bucketsOf uid s) \<ge> 5 then LimitExceeded
                  else if \<not> int4 (maxSortOrder uid s + 1) then Thrown NumericOutOfRange
                  else Thrown UniqueViolation)"
proof -
  have conflict: "userNameConflict s (Some uid) (trim str) (buckets s)"
    using dup schema by (force simp: userNameConflict_def)
  show ?thesis
  proof (cases "length (bucketsOf uid s) \<ge> 5")
    case True
    then show ?thesis using name schema
      by (simp add: bucketsPost_def MAX_BUCKETS_PER_USER_def)
  next
    case False
    then show ?thesis using name schema conflict
      by (simp add: bucketsPost_def MAX_BUCKETS_PER_USER_def Let_def runStmt_def insertBucket_def)
  qed
qed

theorem bucketsPost_duplicate_name_witness:
  "trim '' Strength '' = ''Strength''
   \<and> col_user_id exampleDb \<and> idx_user_name_unique exampleDb
   \<and> (\<exists>b\<in>set (buckets exampleDb). b_user b = Some 1 \<and> b_name b = trim '' Strength '')
   \<and> buckets (snd (bucketsPost 1
        (Some \<lparr>p_id = None, p_name = Some (JStr '' Strength ''), p_sortOrder = None\<rparr>) exampleDb))
       = buckets exampleDb
   \<and> fst (bucketsPost 1
        (Some \<lparr>p_id = None, p_name = Some (JStr '' Strength ''), p_sortOrder = None\<rparr>) exampleDb)
       = Inl (Thrown UniqueViolation)"
proof -
  have t: "trim '' Strength '' = ''Strength''"
    by (simp add: trim_def isWhiteSpace_def)
  have n: "p_name \<lparr>p_id = None, p_name = Some (JStr '' Strength ''), p_sortOrder = None\<rparr>
             = Some (JStr '' Strength '')"
    by simp
  have ne: "trim '' Strength '' \<noteq> []" by (simp add: t)
  have c: "col_user_id exampleDb" and i: "idx_user_name_unique exampleDb"
    by (simp_all add: exampleDb_def)
  have d: "\<exists>b\<in>set (buckets exampleDb). b_user b = Some 1 \<and> b_name b = trim '' Strength ''"
    by (simp add: t exampleDb_def)
  have few: "\<not> length (bucketsOf 1 exampleDb) \<ge> 5" "int4 (maxSortOrder 1 exampleDb + 1)"
    by (simp_all add: bucketsOf_def exampleDb_def maxSortOrder_def int4_def)
  from bucketsPost_duplicate_name[OF n ne c i d] few t c i d show ?thesis
    by simp
qed

text \<open>
  The claim as the specification words it fails: the duplicate is not answered with
  a structured error, no JSON error of any status is sent.
\<close>

theorem bucketsPost_duplicate_name_counterexample:
  "(\<exists>b\<in>set (buckets exampleDb). b_user b = Some 1 \<and> b_name b = trim '' Strength '')
   \<and> \<not> (\<exists>status message. fst (bucketsPost 1
        (Some \<lparr>p_id = None, p_name = Some (JStr '' Strength ''), p_sortOrder = None\<rparr>) exampleDb)
       = Inl (Http status message))"
proof -
  have "bucketsPost 1 (Some \<lparr>p_id = None, p_name = Some (JStr '' Strength ''), p_sortOrder = None\<rparr>)
          exampleDb = (Inl (Thrown UniqueViolation), exampleDb\<lparr>bucket_seq := 4\<rparr>)"
    by (simp add: bucketsPost_def MAX_BUCKETS_PER_USER_def Let_def runStmt_def insertBucket_def
        exampleDb_def trim_def isWhiteSpace_def bucketsOf_def maxSortOrder_def int4_def
        pkConflict_def nameConflict_def userNameConflict_def)
  moreover have "\<exists>b\<in>set (buckets exampleDb). b_user b = Some 1 \<and> b_name b = trim '' Strength ''"
    by (simp add: exampleDb_def trim_def isWhiteSpace_def)
  ultimately show ?thesis by simp
qed

section \<open>Properties of the streak\<close>







section \<open>Properties of the migration\<close>

lemma forEach_same:
  assumes "\<And>x s r s'. f x s = (r, s') \<Longrightarrow> g s' = g s"
  shows "forEach xs f s = (r, s') \<Longrightarrow> g s' = g s"
proof (induction xs arbitrary: s)
  case Nil
  then show ?case by simp
next
  case (Cons x xs)
  obtain r1 s1 where f: "f x s = (r1, s1)" by (cases "f x s")
  show ?case
  proof (cases r1)
    case (Inl e)
    with Cons.prems f have "s' = s1" by simp
    with assms[OF f] show ?thesis by simp
  next
    case (Inr u)
    with Cons.prems f have "forEach xs f s1 = (r, s')" by simp
    from Cons.IH[OF this] assms[OF f] show ?thesis by simp
  qed
qed

lemma bindS_same:
  assumes "\<And>s r s'. m s = (r, s') \<Longrightarrow> g s' = g s"
    and "\<And>x s r s'. f x s = (r, s') \<Longrightarrow> g s' = g s"
  shows "bindS m f s = (r, s') \<Longrightarrow> g s' = g s"
proof -
  assume b: "bindS m f s = (r, s')"
  obtain r1 s1 where m: "m s = (r1, s1)" by (cases "m s")
  show ?thesis
  proof (cases r1)
    case (Inl e)
    with b m have "s' = s1" by (simp add: bindS_def)
    with assms(1)[OF m] show ?thesis by simp
  next
    case (Inr x)
    with b m have "f x s1 = (r, s')" by (simp add: bindS_def)
    from assms(2)[OF this] assms(1)[OF m] show ?thesis by simp
  qed
qed

lemma insertNothing_col: "insertBucketOnConflictNothing u b s = (r, s') \<Longrightarrow> col_user_id s' = col_user_id s"
  unfolding insertBucketOnConflictNothing_def Let_def by (auto split: if_splits)

lemma relinkOne_col: "relinkOne u b s = (r, s') \<Longrightarrow> col_user_id s' = col_user_id s"
  unfolding relinkOne_def repointEntries_def Let_def by (auto split: if_splits list.splits)

lemma clone_col: "cloneGlobalBuckets us gs s = (r, s') \<Longrightarrow> col_user_id s' = col_user_id s"
  unfolding cloneGlobalBuckets_def
  by (erule forEach_same[rotated], erule forEach_same[rotated], erule insertNothing_col)

lemma relink_col: "relinkEntries us gs s = (r, s') \<Longrightarrow> col_user_id s' = col_user_id s"
  unfolding relinkEntries_def
  by (erule forEach_same[rotated], erule forEach_same[rotated], erule relinkOne_col)

lemma deleteGlobal_col: "deleteGlobalBuckets s = (r, s') \<Longrightarrow> col_user_id s' = col_user_id s"
  unfolding deleteGlobalBuckets_def deleteBuckets_def Let_def by auto

lemma setNotNull_col: "setUserIdNotNull s = (r, s') \<Longrightarrow> col_user_id s' = col_user_id s"
  unfolding setUserIdNotNull_def by (auto split: if_splits)

lemma dropIndex_col: "dropNameIndex s = (r, s') \<Longrightarrow> col_user_id s' = col_user_id s"
  unfolding dropNameIndex_def by auto

lemma createIndex_col: "createUserNameIndex s = (r, s') \<Longrightarrow> col_user_id s' = col_user_id s"
  unfolding createUserNameIndex_def by (auto split: if_splits)

lemma backfill_col:
  "bindS (cloneGlobalBuckets us gs) (\<lambda>u. bindS (relinkEntries us gs) (\<lambda>u. deleteGlobalBuckets)) s = (r, s')
   \<Longrightarrow> col_user_id s' = col_user_id s"
  by (erule bindS_same[rotated 2], erule clone_col, erule bindS_same[rotated 2], erule relink_col,
      erule deleteGlobal_col)

lemma tighten_col:
  "bindS setUserIdNotNull (\<lambda>u. bindS dropNameIndex (\<lambda>u. createUserNameIndex)) s = (r, s')
   \<Longrightarrow> col_user_id s' = col_user_id s"
  by (erule bindS_same[rotated 2], erule setNotNull_col, erule bindS_same[rotated 2],
      erule dropIndex_col, erule createIndex_col)

lemma migrate_col: 
  assumes "migrate s = (r, s')" shows "col_user_id s'"
proof (cases "col_user_id s")
  case True
  with assms show ?thesis by (simp add: migrate_def)
next
  case False
  let ?s1 = "addUserIdColumn s"
  let ?gs = "filter (\<lambda>b. b_user b = None) (buckets ?s1)"
  let ?phase2 = "\<lambda>s. if ?gs \<noteq> [] \<and> users ?s1 \<noteq> [] then
                     bindS (cloneGlobalBuckets (users ?s1) ?gs)
                       (\<lambda>u. bindS (relinkEntries (users ?s1) ?gs) (\<lambda>u. deleteGlobalBuckets)) s
                   else (Inr (), s)"
  have run: "bindS ?phase2 (\<lambda>u. bindS setUserIdNotNull (\<lambda>u. bindS dropNameIndex (\<lambda>u. createUserNameIndex))) ?s1 = (r, s')"
    using assms False by (simp add: migrate_def Let_def)
  have p2: "\<And>s r s'. ?phase2 s = (r, s') \<Longrightarrow> col_user_id s' = col_user_id s"
    by (auto split: if_splits dest: backfill_col)
  have "col_user_id s' = col_user_id ?s1"
    by (rule bindS_same[where g = col_user_id, OF p2 tighten_col run])
  then show ?thesis by (simp add: addUserIdColumn_def)
qed

lemma seedStep_refl: "seedStep s s"
  by (simp add: seedStep_def)

lemma seedStep_trans: "seedStep a b \<Longrightarrow> seedStep b c \<Longrightarrow> seedStep a c"
  by (simp add: seedStep_def)

lemma forEach_rel:
  assumes refl: "\<And>s. R s s" and trans: "\<And>a b c. R a b \<Longrightarrow> R b c \<Longrightarrow> R a c"
    and step: "\<And>x s r s'. f x s = (r, s') \<Longrightarrow> R s s'"
  shows "forEach xs f s = (r, s') \<Longrightarrow> R s s'"
proof (induction xs arbitrary: s)
  case Nil
  then show ?case using refl by simp
next
  case (Cons x xs)
  obtain r1 s1 where f: "f x s = (r1, s1)" by (cases "f x s")
  show ?case
  proof (cases r1)
    case (Inl e)
    with Cons.prems f have "s' = s1" by simp
    with step[OF f] show ?thesis by simp
  next
    case (Inr u)
    with Cons.prems f have "forEach xs f s1 = (r, s')" by simp
    from trans[OF step[OF f] Cons.IH[OF this]] show ?thesis .
  qed
qed

lemma bucketsOf_append:
  "bucketsOf v (s\<lparr>bucket_seq := q, buckets := buckets s @ [row]\<rparr>)
     = bucketsOf v s @ (if b_user row = Some v then [row] else [])"
  by (simp add: bucketsOf_def)

lemma insertUserName_step:
  assumes "insertBucketOnConflictUserName uid bk s = (r, s')"
  shows "seedStep s s'" and "r = Inr () \<Longrightarrow> bucketsOf uid s' \<noteq> []"
proof -
  show "seedStep s s'"
    using assms unfolding insertBucketOnConflictUserName_def Let_def seedStep_def
    by (auto simp: bucketsOf_def split: if_splits)
  show "r = Inr () \<Longrightarrow> bucketsOf uid s' \<noteq> []"
    using assms unfolding insertBucketOnConflictUserName_def Let_def
    by (auto simp: bucketsOf_def userNameConflict_def filter_empty_conv split: if_splits)
qed

lemma seedLoop_step:
  "forEach xs (insertBucketOnConflictUserName uid) s = (r, s') \<Longrightarrow> seedStep s s'"
  by (erule forEach_rel[of seedStep, rotated 3]) (auto intro: seedStep_refl seedStep_trans insertUserName_step(1))

lemma seedLoop_nonempty:
  assumes "forEach (x # xs) (insertBucketOnConflictUserName uid) s = (Inr (), s')"
  shows "bucketsOf uid s' \<noteq> []"
proof -
  obtain r1 s1 where f: "insertBucketOnConflictUserName uid x s = (r1, s1)"
    by (cases "insertBucketOnConflictUserName uid x s")
  with assms have r1: "r1 = Inr ()" and rest: "forEach xs (insertBucketOnConflictUserName uid) s1 = (Inr (), s')"
    by (auto split: sum.splits)
  from insertUserName_step(2)[OF f r1] have "bucketsOf uid s1 \<noteq> []" .
  with seedLoop_step[OF rest] show ?thesis by (simp add: seedStep_def)
qed

lemma seedUsers_result:
  "forEach us (\<lambda>uid. forEach DEFAULT_BUCKETS (insertBucketOnConflictUserName uid)) s = (Inr (), s')
   \<Longrightarrow> seedStep s s' \<and> (\<forall>u\<in>set us. bucketsOf u s' \<noteq> [])"
proof (induction us arbitrary: s)
  case Nil
  then show ?case by (simp add: seedStep_refl)
next
  case (Cons u us)
  obtain r1 s1 where f: "forEach DEFAULT_BUCKETS (insertBucketOnConflictUserName u) s = (r1, s1)"
    by (cases "forEach DEFAULT_BUCKETS (insertBucketOnConflictUserName u) s")
  with Cons.prems have r1: "r1 = Inr ()"
    and rest: "forEach us (\<lambda>uid. forEach DEFAULT_BUCKETS (insertBucketOnConflictUserName uid)) s1 = (Inr (), s')"
    by (auto split: sum.splits)
  from Cons.IH[OF rest] have ih: "seedStep s1 s'" "\<forall>u\<in>set us. bucketsOf u s' \<noteq> []" by simp_all
  have st: "seedStep s s1" using seedLoop_step[OF f] .
  have "bucketsOf u s1 \<noteq> []"
    using f r1 seedLoop_nonempty[of "hd DEFAULT_BUCKETS" "tl DEFAULT_BUCKETS" u s s1]
    by (simp add: DEFAULT_BUCKETS_def)
  with ih(1) have "bucketsOf u s' \<noteq> []" by (simp add: seedStep_def)
  with ih st show ?case by (auto intro: seedStep_trans)
qed

lemma seedDefaultBuckets_result:
  assumes "seedDefaultBuckets s = (Inr (), s')"
  shows "col_user_id s' \<and> (\<forall>u\<in>set (users s'). bucketsOf u s' \<noteq> [])"
proof -
  let ?us = "filter (\<lambda>uid. bucketsOf uid s = []) (users s)"
  from assms have col: "col_user_id s"
    and run: "forEach ?us (\<lambda>uid. forEach DEFAULT_BUCKETS (insertBucketOnConflictUserName uid)) s = (Inr (), s')"
    by (auto simp: seedDefaultBuckets_def bindS_def needUserIdColumn_def Let_def split: if_splits)
  from seedUsers_result[OF run] have st: "seedStep s s'" and ne: "\<forall>u\<in>set ?us. bucketsOf u s' \<noteq> []"
    by simp_all
  have "\<forall>u\<in>set (users s'). bucketsOf u s' \<noteq> []"
  proof
    fix u assume "u \<in> set (users s')"
    then have u: "u \<in> set (users s)" using st by (simp add: seedStep_def)
    show "bucketsOf u s' \<noteq> []"
    proof (cases "bucketsOf u s = []")
      case True
      with u ne show ?thesis by simp
    next
      case False
      with st show ?thesis by (simp add: seedStep_def)
    qed
  qed
  with col st show ?thesis by (simp add: seedStep_def)
qed

lemma runMigration_settled:
  assumes "col_user_id s" and "\<forall>u\<in>set (users s). bucketsOf u s \<noteq> []"
  shows "runMigration s = (Inr (), s)"
proof -
  have "filter (\<lambda>uid. bucketsOf uid s = []) (users s) = []"
    using assms(2) by (simp add: filter_empty_conv)
  then show ?thesis using assms(1)
    by (simp add: runMigration_def bindS_def migrate_def seedDefaultBuckets_def needUserIdColumn_def Let_def)
qed


lemma seedDefaultBuckets_col:
  assumes "seedDefaultBuckets s = (r, s')"
  shows "col_user_id s' = col_user_id s"
proof (cases "col_user_id s")
  case False
  with assms show ?thesis
    by (simp add: seedDefaultBuckets_def bindS_def needUserIdColumn_def)
next
  case True
  let ?us = "filter (\<lambda>uid. bucketsOf uid s = []) (users s)"
  from assms True
  have run: "forEach ?us (\<lambda>uid. forEach DEFAULT_BUCKETS (insertBucketOnConflictUserName uid)) s = (r, s')"
    by (simp add: seedDefaultBuckets_def bindS_def needUserIdColumn_def Let_def)
  have "seedStep s s'"
    by (rule forEach_rel[of seedStep, OF seedStep_refl seedStep_trans seedLoop_step run])
  then show ?thesis by (simp add: seedStep_def)
qed

lemma runMigration_col:
  assumes "runMigration s = (r, s1)"
  shows "col_user_id s1"
proof -
  obtain r0 s0 where m: "migrate s = (r0, s0)" by (cases "migrate s")
  from migrate_col[OF m] have c0: "col_user_id s0" .
  show ?thesis
  proof (cases r0)
    case (Inl e)
    with assms m have "s1 = s0" by (simp add: runMigration_def bindS_def)
    with c0 show ?thesis by simp
  next
    case (Inr u)
    with assms m have "seedDefaultBuckets s0 = (r, s1)" by (simp add: runMigration_def bindS_def)
    from seedDefaultBuckets_col[OF this] c0 show ?thesis by simp
  qed
qed

text \<open>
  Claim C7. After a run of the migration script, whatever its outcome, the column
  check of a second run finds \<^verbatim>\<open>buckets.user_id\<close> and \<^verbatim>\<open>migrate\<close> skips the backfill,
  leaving the store as it is. After a successful run every user has a bucket, so the
  seeding that follows \<^verbatim>\<open>migrate\<close> in the script finds nobody to seed either: the
  second run of the whole script succeeds and changes nothing.
\<close>

theorem runMigration_idempotent:
  assumes "runMigration s = (r, s1)"
  shows "migrate s1 = (Inr (), s1) \<and> (r = Inr () \<longrightarrow> runMigration s1 = (Inr (), s1))"
proof
  from runMigration_col[OF assms] show "migrate s1 = (Inr (), s1)"
    by (simp add: migrate_def)
next
  show "r = Inr () \<longrightarrow> runMigration s1 = (Inr (), s1)"
  proof
    assume ok: "r = Inr ()"
    obtain r0 s0 where m: "migrate s = (r0, s0)" by (cases "migrate s")
    with assms ok have "seedDefaultBuckets s0 = (Inr (), s1)"
      by (cases r0) (simp_all add: runMigration_def bindS_def)
    from seedDefaultBuckets_result[OF this] show "runMigration s1 = (Inr (), s1)"
      by (intro runMigration_settled) simp_all
  qed
qed

theorem runMigration_idempotent_witness:
  "fst (runMigration legacyDbNoIndex) = Inr ()
   \<and> map b_user (buckets (snd (runMigration legacyDbNoIndex))) = [Some 1]
   \<and> runMigration (snd (runMigration legacyDbNoIndex)) = (Inr (), snd (runMigration legacyDbNoIndex))"
proof -
  have ok: "fst (runMigration legacyDbNoIndex) = Inr ()"
    and owners: "map b_user (buckets (snd (runMigration legacyDbNoIndex))) = [Some 1]"
    by code_simp+
  have run: "runMigration legacyDbNoIndex
               = (fst (runMigration legacyDbNoIndex), snd (runMigration legacyDbNoIndex))"
    by simp
  from runMigration_idempotent[OF run] ok owners show ?thesis by simp
qed


section \<open>The invariant of the bucket registry\<close>

lemma invariant_cong:
  "col_user_id s' = col_user_id s \<Longrightarrow> idx_user_name_unique s' = idx_user_name_unique s
   \<Longrightarrow> buckets s' = buckets s \<Longrightarrow> registryInvariant s' = registryInvariant s"
  by (simp add: registryInvariant_def bucketsOf_def)

lemma invariant_seq [simp]: "registryInvariant (s\<lparr>bucket_seq := q\<rparr>) = registryInvariant s"
  by (rule invariant_cong) simp_all

lemma bucketsOf_snoc:
  "bucketsOf v (s\<lparr>buckets := buckets s @ [row]\<rparr>)
     = bucketsOf v s @ (if b_user row = Some v then [row] else [])"
  by (simp add: bucketsOf_def)

lemma invariant_snoc:
  assumes inv: "registryInvariant s"
    and pk: "\<not> pkConflict (b_id row) (buckets s)"
    and un: "\<not> userNameConflict s (b_user row) (b_name row) (buckets s)"
    and cnt: "\<And>u. b_user row = Some u \<Longrightarrow> length (bucketsOf u s) < MAX_BUCKETS_PER_USER"
  shows "registryInvariant (s\<lparr>buckets := buckets s @ [row]\<rparr>)"
proof -
  have ids: "distinct (map b_id (buckets s @ [row]))"
    using inv pk by (auto simp: registryInvariant_def pkConflict_def)
  have per: "length (bucketsOf u (s\<lparr>buckets := buckets s @ [row]\<rparr>)) \<le> MAX_BUCKETS_PER_USER
           \<and> distinct (map b_name (bucketsOf u (s\<lparr>buckets := buckets s @ [row]\<rparr>)))" for u
  proof (cases "b_user row = Some u")
    case False
    then show ?thesis using inv by (simp add: bucketsOf_snoc registryInvariant_def)
  next
    case True
    have "b_name row \<notin> b_name ` set (bucketsOf u s)"
      using un inv True by (force simp: userNameConflict_def registryInvariant_def bucketsOf_def)
    with True cnt[OF True] inv show ?thesis
      by (simp add: bucketsOf_snoc registryInvariant_def)
  qed
  show ?thesis using inv ids per by (simp add: registryInvariant_def)
qed

lemma insertBucket_invariant:
  assumes "registryInvariant s" and "length (bucketsOf uid s) < MAX_BUCKETS_PER_USER"
  shows "registryInvariant (snd (insertBucket uid n ord s))"
proof -
  let ?row = "\<lparr>b_id = bucket_seq s, b_user = Some uid, b_name = n, b_sort = ord\<rparr>"
  have "snd (insertBucket uid n ord s) = s
      \<or> snd (insertBucket uid n ord s) = s\<lparr>bucket_seq := bucket_seq s + 1\<rparr>
      \<or> (\<not> pkConflict (bucket_seq s) (buckets s) \<and> \<not> userNameConflict s (Some uid) n (buckets s)
          \<and> snd (insertBucket uid n ord s) = s\<lparr>bucket_seq := bucket_seq s + 1, buckets := buckets s @ [?row]\<rparr>)"
    unfolding insertBucket_def Let_def by auto
  then show ?thesis
  proof (elim disjE conjE)
    assume "snd (insertBucket uid n ord s) = s"
    with assms show ?thesis by simp
  next
    assume "snd (insertBucket uid n ord s) = s\<lparr>bucket_seq := bucket_seq s + 1\<rparr>"
    with assms show ?thesis by simp
  next
    assume pk: "\<not> pkConflict (bucket_seq s) (buckets s)"
      and un: "\<not> userNameConflict s (Some uid) n (buckets s)"
      and eq: "snd (insertBucket uid n ord s) = s\<lparr>bucket_seq := bucket_seq s + 1, buckets := buckets s @ [?row]\<rparr>"
    have "registryInvariant (s\<lparr>buckets := buckets s @ [?row]\<rparr>)"
      by (rule invariant_snoc) (use assms pk un in simp_all)
    moreover have "registryInvariant (snd (insertBucket uid n ord s))
                     = registryInvariant (s\<lparr>buckets := buckets s @ [?row]\<rparr>)"
      by (rule invariant_cong) (simp_all add: eq)
    ultimately show ?thesis by simp
  qed
qed

lemma bucketsPost_invariant:
  assumes "registryInvariant s"
  shows "registryInvariant (snd (bucketsPost uid payload s))"
proof -
  have "snd (bucketsPost uid payload s) = s
      \<or> (length (bucketsOf uid s) < MAX_BUCKETS_PER_USER
          \<and> (\<exists>n ord. snd (bucketsPost uid payload s) = snd (insertBucket uid n ord s)))"
    unfolding bucketsPost_def Let_def
    by (auto simp: snd_runStmt split: option.splits sum.splits)
  with assms insertBucket_invariant show ?thesis by auto
qed

lemma deleteBuckets_invariant:
  assumes "registryInvariant s"
  shows "registryInvariant (deleteBuckets gone s)"
proof -
  have of: "bucketsOf u (deleteBuckets gone s) = filter (\<lambda>b. \<not> gone b) (bucketsOf u s)" for u
    by (auto simp: deleteBuckets_def bucketsOf_def Let_def intro: filter_cong)
  have len: "length (filter (\<lambda>b. \<not> gone b) (bucketsOf u s)) \<le> MAX_BUCKETS_PER_USER" for u
    using assms le_trans[OF length_filter_le] by (auto simp: registryInvariant_def)
  show ?thesis using assms len
    by (simp add: registryInvariant_def of distinct_map_filter)
      (simp add: deleteBuckets_def Let_def distinct_map_filter)
qed

lemma bucketsDelete_invariant:
  assumes "registryInvariant s"
  shows "registryInvariant (snd (bucketsDelete uid payload s))"
  using assms deleteBuckets_invariant
  by (auto simp: bucketsDelete_def split: option.splits)

lemma filter_user_map:
  assumes "\<And>b. b_user (f b) = b_user b"
  shows "filter (\<lambda>b. b_user b = Some v) (map f xs) = map f (filter (\<lambda>b. b_user b = Some v) xs)"
  by (induction xs) (simp_all add: assms)

lemma rewrite_fields [simp]:
  "b_id (rewriteBucket n ord b) = b_id b" "b_user (rewriteBucket n ord b) = b_user b"
  "b_name (rewriteBucket n ord b) = (case n of None \<Rightarrow> b_name b | Some n' \<Rightarrow> n')"
  by (simp_all add: rewriteBucket_def)

lemma map_id_rewrite:
  "map b_id (map (\<lambda>b. if P b then rewriteBucket n ord b else b) xs) = map b_id xs"
  by (induction xs) simp_all

lemma map_name_rewrite_None:
  "map b_name (map (\<lambda>b. if P b then rewriteBucket None ord b else b) xs) = map b_name xs"
  by (induction xs) simp_all

lemma renamed_distinct:
  assumes "distinct (map b_id xs)" and "distinct (map b_name xs)"
    and "\<forall>b\<in>set xs. b_id b \<noteq> i \<longrightarrow> b_name b \<noteq> n'"
  shows "distinct (map b_name (map (\<lambda>b. if b_id b = i then rewriteBucket (Some n') ord b else b) xs))"
  using assms
proof (induction xs)
  case Nil
  then show ?case by simp
next
  case (Cons b xs)
  let ?f = "\<lambda>b. if b_id b = i then rewriteBucket (Some n') ord b else b"
  have ih: "distinct (map b_name (map ?f xs))" using Cons by simp
  show ?case
  proof (cases "b_id b = i")
    case True
    with Cons.prems(1) have "\<forall>c\<in>set xs. b_id c \<noteq> i" by (auto simp: image_iff)
    then have same: "map ?f xs = xs" by (simp add: map_idI)
    have "n' \<notin> b_name ` set xs" using Cons.prems(3) \<open>\<forall>c\<in>set xs. b_id c \<noteq> i\<close> by auto
    with True same Cons.prems(2) show ?thesis by simp
  next
    case False
    with Cons.prems(3) have ne: "b_name b \<noteq> n'" by simp
    have fresh: "b_name b \<notin> b_name ` set xs" using Cons.prems(2) by simp
    have "b_name b \<notin> set (map b_name (map ?f xs))"
    proof
      assume "b_name b \<in> set (map b_name (map ?f xs))"
      then obtain c where c: "c \<in> set xs" "b_name (?f c) = b_name b" by auto
      show False
      proof (cases "b_id c = i")
        case True
        with c(2) ne show False by simp
      next
        case False
        with c fresh show False by (auto simp: image_iff)
      qed
    qed
    with False ih show ?thesis by simp
  qed
qed

lemma updateBucket_invariant:
  assumes inv: "registryInvariant s"
  shows "registryInvariant (snd (updateBucket i uid n ord s))"
proof -
  let ?hit = "\<lambda>b. b_id b = i \<and> b_user b = Some uid"
  let ?f = "\<lambda>b. if ?hit b then rewriteBucket n ord b else b"
  let ?rows = "map ?f (buckets s)"
  let ?others = "filter (\<lambda>b. \<not> ?hit b) (buckets s)"
  let ?clash = "\<exists>b \<in> set (filter ?hit ?rows).
                 nameConflict s (b_name b) ?others \<or> userNameConflict s (b_user b) (b_name b) ?others"
  show ?thesis
  proof (cases "snd (updateBucket i uid n ord s) = s")
    case True
    with inv show ?thesis by simp
  next
    case False
    then have eq: "snd (updateBucket i uid n ord s) = s\<lparr>buckets := ?rows\<rparr>" and noclash: "\<not> ?clash"
      unfolding updateBucket_def Let_def by (auto split: if_splits)
    have user: "\<And>b. b_user (?f b) = b_user b" by simp
    have of: "bucketsOf v (s\<lparr>buckets := ?rows\<rparr>) = map ?f (bucketsOf v s)" for v
      unfolding bucketsOf_def using filter_user_map[of ?f v "buckets s"] by simp
    have ids: "distinct (map b_id ?rows)"
      unfolding map_id_rewrite using inv by (simp add: registryInvariant_def)
    have names: "distinct (map b_name (map ?f (bucketsOf v s)))" for v
    proof (cases "v = uid")
      case False
      have "map ?f (bucketsOf v s) = bucketsOf v s"
        using False by (intro map_idI) (auto simp: bucketsOf_def)
      with inv show ?thesis by (simp add: registryInvariant_def)
    next
      case True
      have onU: "map ?f (bucketsOf uid s)
                   = map (\<lambda>b. if b_id b = i then rewriteBucket n ord b else b) (bucketsOf uid s)"
        by (intro map_cong) (auto simp: bucketsOf_def)
      have du: "distinct (map b_name (bucketsOf uid s))" "distinct (map b_id (bucketsOf uid s))"
        using inv by (simp_all add: registryInvariant_def bucketsOf_def distinct_map_filter)
      show ?thesis
      proof (cases n)
        case None
        show ?thesis unfolding None map_name_rewrite_None using du True by simp
      next
        case (Some n')
        have free: "\<forall>b\<in>set (bucketsOf uid s). b_id b \<noteq> i \<longrightarrow> b_name b \<noteq> n'"
        proof (intro ballI impI)
          fix b assume b: "b \<in> set (bucketsOf uid s)" "b_id b \<noteq> i"
          show "b_name b \<noteq> n'"
          proof (cases "\<exists>h\<in>set (buckets s). ?hit h")
            case False
            then have "?rows = buckets s" by (intro map_idI) auto
            with \<open>snd (updateBucket i uid n ord s) \<noteq> s\<close> eq show ?thesis by simp
          next
            case True
            then obtain h where h: "h \<in> set (buckets s)" "?hit h" by blast
            have "?f h \<in> set ?rows" using h(1) by (intro imageI[of h "set (buckets s)" ?f, folded set_map])
            then have r: "rewriteBucket n ord h \<in> set ?rows" using h(2) by simp
            have "?hit (rewriteBucket n ord h)" using h(2) by simp
            with r have "rewriteBucket n ord h \<in> set (filter ?hit ?rows)" by simp
            with noclash
            have "\<not> userNameConflict s (b_user (rewriteBucket n ord h)) (b_name (rewriteBucket n ord h)) ?others"
              by blast
            then have "\<not> userNameConflict s (Some uid) n' ?others"
              using Some h(2) by simp
            moreover have "idx_user_name_unique s" using inv by (simp add: registryInvariant_def)
            moreover have "b \<in> set ?others" using b by (auto simp: bucketsOf_def)
            moreover have "b_user b = Some uid" using b by (simp add: bucketsOf_def)
            ultimately show ?thesis by (force simp: userNameConflict_def)
          qed
        qed
        have onU': "map ?f (bucketsOf uid s)
                   = map (\<lambda>b. if b_id b = i then rewriteBucket (Some n') ord b else b) (bucketsOf uid s)"
          using onU Some by simp
        show ?thesis unfolding True onU' by (rule renamed_distinct[OF du(2) du(1) free])
      qed
    qed
    have per: "length (bucketsOf u (s\<lparr>buckets := ?rows\<rparr>)) \<le> MAX_BUCKETS_PER_USER
             \<and> distinct (map b_name (bucketsOf u (s\<lparr>buckets := ?rows\<rparr>)))" for u
      unfolding of using inv names[of u] by (simp add: registryInvariant_def)
    have flags: "col_user_id s" "idx_user_name_unique s" using inv by (simp_all add: registryInvariant_def)
    have "registryInvariant (s\<lparr>buckets := ?rows\<rparr>)"
      unfolding registryInvariant_def
    proof (intro conjI allI)
      show "col_user_id (s\<lparr>buckets := ?rows\<rparr>)" using flags by simp
      show "idx_user_name_unique (s\<lparr>buckets := ?rows\<rparr>)" using flags by simp
      show "distinct (map b_id (buckets (s\<lparr>buckets := ?rows\<rparr>)))" using ids by simp
      show "length (bucketsOf u (s\<lparr>buckets := ?rows\<rparr>)) \<le> MAX_BUCKETS_PER_USER" for u
        using per[of u] by (rule conjunct1)
      show "distinct (map b_name (bucketsOf u (s\<lparr>buckets := ?rows\<rparr>)))" for u
        using per[of u] by (rule conjunct2)
    qed
    with eq show ?thesis by simp
  qed
qed

lemma forEach_invariant:
  assumes step: "\<And>x s r s'. x \<in> set xs \<Longrightarrow> P s \<Longrightarrow> f x s = (r, s') \<Longrightarrow> P s'"
  shows "P s \<Longrightarrow> forEach xs f s = (r, s') \<Longrightarrow> P s'"
proof -
  have "\<forall>s. set ys \<subseteq> set xs \<longrightarrow> P s \<longrightarrow> forEach ys f s = (r, s') \<longrightarrow> P s'" for ys
  proof (induction ys)
    case Nil
    show ?case by simp
  next
    case (Cons y ys)
    show ?case
    proof (intro allI impI)
      fix s assume sub: "set (y # ys) \<subseteq> set xs" and p: "P s" and run: "forEach (y # ys) f s = (r, s')"
      obtain r1 s1 where f: "f y s = (r1, s1)" by (cases "f y s")
      have p1: "P s1" using step[OF _ p f] sub by simp
      show "P s'"
      proof (cases r1)
        case (Inl e)
        with run f have "s' = s1" by simp
        with p1 show ?thesis by simp
      next
        case (Inr u)
        with run f have "forEach ys f s1 = (r, s')" by simp
        with Cons.IH sub p1 show ?thesis by simp
      qed
    qed
  qed
  then show "P s \<Longrightarrow> forEach xs f s = (r, s') \<Longrightarrow> P s'" by blast
qed

lemma seedEffect_refl: "seedEffect uid N s s"
  by (simp add: seedEffect_def)

lemma seedEffectD:
  assumes "seedEffect uid N s s'"
  shows "col_user_id s' = col_user_id s" "idx_user_name_unique s' = idx_user_name_unique s"
    "users s' = users s" "\<And>v. v \<noteq> uid \<Longrightarrow> bucketsOf v s' = bucketsOf v s"
    "distinct (map b_id (buckets s)) \<Longrightarrow> distinct (map b_id (buckets s'))"
    "b_name ` set (bucketsOf uid s') \<subseteq> b_name ` set (bucketsOf uid s) \<union> N"
    "distinct (map b_name (bucketsOf uid s)) \<Longrightarrow> distinct (map b_name (bucketsOf uid s'))"
  using assms unfolding seedEffect_def by blast+

lemma seedEffectI:
  assumes "col_user_id s' = col_user_id s" "idx_user_name_unique s' = idx_user_name_unique s"
    "users s' = users s" "\<And>v. v \<noteq> uid \<Longrightarrow> bucketsOf v s' = bucketsOf v s"
    "distinct (map b_id (buckets s)) \<Longrightarrow> distinct (map b_id (buckets s'))"
    "b_name ` set (bucketsOf uid s') \<subseteq> b_name ` set (bucketsOf uid s) \<union> N"
    "distinct (map b_name (bucketsOf uid s)) \<Longrightarrow> distinct (map b_name (bucketsOf uid s'))"
  shows "seedEffect uid N s s'"
  using assms unfolding seedEffect_def by blast

lemma seedEffect_trans:
  assumes ab: "seedEffect uid N a b" and bc: "seedEffect uid N b c"
  shows "seedEffect uid N a c"
proof (rule seedEffectI)
  show "col_user_id c = col_user_id a" using seedEffectD(1)[OF ab] seedEffectD(1)[OF bc] by simp
  show "idx_user_name_unique c = idx_user_name_unique a"
    using seedEffectD(2)[OF ab] seedEffectD(2)[OF bc] by simp
  show "users c = users a" using seedEffectD(3)[OF ab] seedEffectD(3)[OF bc] by simp
  show "bucketsOf v c = bucketsOf v a" if "v \<noteq> uid" for v
    using seedEffectD(4)[OF ab that] seedEffectD(4)[OF bc that] by simp
  show "distinct (map b_id (buckets c))" if "distinct (map b_id (buckets a))"
    using seedEffectD(5)[OF bc seedEffectD(5)[OF ab that]] .
  show "b_name ` set (bucketsOf uid c) \<subseteq> b_name ` set (bucketsOf uid a) \<union> N"
    using seedEffectD(6)[OF ab] seedEffectD(6)[OF bc] by blast
  show "distinct (map b_name (bucketsOf uid c))" if "distinct (map b_name (bucketsOf uid a))"
    using seedEffectD(7)[OF bc seedEffectD(7)[OF ab that]] .
qed

lemma seedEffect_mono:
  assumes ab: "seedEffect uid N a b" and sub: "N \<subseteq> M"
  shows "seedEffect uid M a b"
proof (rule seedEffectI)
  show "b_name ` set (bucketsOf uid b) \<subseteq> b_name ` set (bucketsOf uid a) \<union> M"
    using seedEffectD(6)[OF ab] sub by blast
qed (use seedEffectD[OF ab] in simp_all)

lemma seedEffect_seq: "seedEffect uid N s (s\<lparr>bucket_seq := q\<rparr>)"
  by (simp add: seedEffect_def bucketsOf_def)

lemma insertUserName_effect:
  assumes "insertBucketOnConflictUserName uid bk s = (r, s')"
  shows "seedEffect uid {fst bk} s s'"
proof -
  let ?row = "\<lparr>b_id = bucket_seq s, b_user = Some uid, b_name = fst bk, b_sort = snd bk\<rparr>"
  have "s' = s \<or> s' = s\<lparr>bucket_seq := bucket_seq s + 1\<rparr>
      \<or> (idx_user_name_unique s \<and> \<not> pkConflict (bucket_seq s) (buckets s)
          \<and> \<not> userNameConflict s (Some uid) (fst bk) (buckets s)
          \<and> s' = s\<lparr>bucket_seq := bucket_seq s + 1, buckets := buckets s @ [?row]\<rparr>)"
    using assms unfolding insertBucketOnConflictUserName_def Let_def by (auto split: if_splits)
  then show ?thesis
  proof (elim disjE conjE)
    assume "s' = s" then show ?thesis by (simp add: seedEffect_refl)
  next
    assume "s' = s\<lparr>bucket_seq := bucket_seq s + 1\<rparr>" then show ?thesis by (simp add: seedEffect_seq)
  next
    assume idx: "idx_user_name_unique s" and pk: "\<not> pkConflict (bucket_seq s) (buckets s)"
      and un: "\<not> userNameConflict s (Some uid) (fst bk) (buckets s)"
      and eq: "s' = s\<lparr>bucket_seq := bucket_seq s + 1, buckets := buckets s @ [?row]\<rparr>"
    have of: "bucketsOf v s' = bucketsOf v s @ (if v = uid then [?row] else [])" for v
      unfolding eq bucketsOf_def by auto
    have fresh: "fst bk \<notin> b_name ` set (bucketsOf uid s)"
      using un idx by (force simp: userNameConflict_def bucketsOf_def)
    have ids: "distinct (map b_id (buckets s)) \<longrightarrow> distinct (map b_id (buckets s'))"
      using pk unfolding eq by (auto simp: pkConflict_def)
    show ?thesis
      unfolding seedEffect_def
    proof (intro conjI allI impI)
      show "col_user_id s' = col_user_id s" "idx_user_name_unique s' = idx_user_name_unique s"
        "users s' = users s" unfolding eq by simp_all
      show "bucketsOf v s' = bucketsOf v s" if "v \<noteq> uid" for v using that by (simp add: of)
      show "distinct (map b_id (buckets s'))" if "distinct (map b_id (buckets s))"
        using ids that by simp
      show "b_name ` set (bucketsOf uid s') \<subseteq> b_name ` set (bucketsOf uid s) \<union> {fst bk}"
        by (auto simp: of)
      show "distinct (map b_name (bucketsOf uid s'))" if "distinct (map b_name (bucketsOf uid s))"
        using that fresh by (simp add: of)
    qed
  qed
qed

lemma seedLoop_effect:
  assumes "forEach xs (insertBucketOnConflictUserName uid) s = (r, s')"
  shows "seedEffect uid (fst ` set xs) s s'"
  using assms
proof (induction xs arbitrary: s)
  case Nil
  then show ?case by (simp add: seedEffect_refl)
next
  case (Cons x xs)
  obtain r1 s1 where f: "insertBucketOnConflictUserName uid x s = (r1, s1)"
    by (cases "insertBucketOnConflictUserName uid x s")
  have e1: "seedEffect uid (fst ` set (x # xs)) s s1"
    by (rule seedEffect_mono[OF insertUserName_effect[OF f]]) simp
  show ?case
  proof (cases r1)
    case (Inl e)
    with Cons.prems f have "s' = s1" by simp
    with e1 show ?thesis by simp
  next
    case (Inr u)
    with Cons.prems f have "forEach xs (insertBucketOnConflictUserName uid) s1 = (r, s')" by simp
    from Cons.IH[OF this] have "seedEffect uid (fst ` set (x # xs)) s1 s'"
      by (rule seedEffect_mono) auto
    with e1 show ?thesis by (rule seedEffect_trans)
  qed
qed

lemma seedEffect_invariant:
  assumes inv: "registryInvariant s" and eff: "seedEffect uid N s s'"
    and sub: "b_name ` set (bucketsOf uid s) \<union> N \<subseteq> M" and fin: "finite M"
    and card: "card M \<le> MAX_BUCKETS_PER_USER"
  shows "registryInvariant s'"
  unfolding registryInvariant_def
proof (intro conjI allI)
  show "col_user_id s'" "idx_user_name_unique s'" "distinct (map b_id (buckets s'))"
    using inv eff by (simp_all add: registryInvariant_def seedEffect_def)
next
  fix u
  have dn: "distinct (map b_name (bucketsOf u s'))"
    using inv eff by (cases "u = uid") (simp_all add: registryInvariant_def seedEffect_def)
  then show "distinct (map b_name (bucketsOf u s'))" .
  show "length (bucketsOf u s') \<le> MAX_BUCKETS_PER_USER"
  proof (cases "u = uid")
    case False
    then show ?thesis using inv eff by (simp add: registryInvariant_def seedEffect_def)
  next
    case True
    have "b_name ` set (bucketsOf uid s') \<subseteq> b_name ` set (bucketsOf uid s) \<union> N"
      using eff by (simp add: seedEffect_def)
    with sub have "b_name ` set (bucketsOf uid s') \<subseteq> M" by blast
    then have "card (b_name ` set (bucketsOf uid s')) \<le> card M" using fin by (rule card_mono[rotated])
    moreover have "length (bucketsOf uid s') = card (b_name ` set (bucketsOf uid s'))"
      using dn True distinct_card[of "map b_name (bucketsOf uid s')"] by simp
    ultimately show ?thesis using card True by simp
  qed
qed

lemma defaultNames: "finite (fst ` set DEFAULT_BUCKETS)" "card (fst ` set DEFAULT_BUCKETS) \<le> MAX_BUCKETS_PER_USER"
  by (simp_all add: DEFAULT_BUCKETS_def MAX_BUCKETS_PER_USER_def card_insert_if)

lemma seedBucketsForUser_invariant:
  assumes "registryInvariant s"
  shows "registryInvariant (snd (seedBucketsForUser uid s))"
proof (cases "col_user_id s \<and> bucketsOf uid s = []")
  case False
  then have "snd (seedBucketsForUser uid s) = s"
    by (auto simp: seedBucketsForUser_def bindS_def needUserIdColumn_def)
  with assms show ?thesis by simp
next
  case True
  then have run: "seedBucketsForUser uid s = forEach DEFAULT_BUCKETS (insertBucketOnConflictUserName uid) s"
    by (simp add: seedBucketsForUser_def bindS_def needUserIdColumn_def)
  have "seedEffect uid (fst ` set DEFAULT_BUCKETS) s (snd (seedBucketsForUser uid s))"
    by (rule seedLoop_effect[of DEFAULT_BUCKETS uid s "fst (seedBucketsForUser uid s)"]) (simp add: run)
  from seedEffect_invariant[OF assms this _ defaultNames] True show ?thesis by simp
qed

lemma resetData_invariant:
  assumes "registryInvariant s"
  shows "registryInvariant (snd (resetData s))"
proof -
  let ?s2 = "deleteBuckets (\<lambda>b. True) (s\<lparr>entries := []\<rparr>)"
  have "registryInvariant (s\<lparr>entries := []\<rparr>) = registryInvariant s"
    by (rule invariant_cong) simp_all
  with assms have i2: "registryInvariant ?s2" by (simp add: deleteBuckets_invariant)
  have run: "resetData s = forEach (users ?s2) seedBucketsForUser ?s2"
    by (simp add: resetData_def Let_def)
  have step: "\<And>x s r s'. x \<in> set (users ?s2) \<Longrightarrow> registryInvariant s
                \<Longrightarrow> seedBucketsForUser x s = (r, s') \<Longrightarrow> registryInvariant s'"
    using seedBucketsForUser_invariant by (metis snd_conv)
  show ?thesis
    by (rule forEach_invariant[of "users ?s2" registryInvariant seedBucketsForUser ?s2
          "fst (resetData s)", OF step i2]) (simp_all add: run)
qed

lemma seedDefaultBuckets_invariant:
  assumes inv: "registryInvariant s"
  shows "registryInvariant (snd (seedDefaultBuckets s))"
proof -
  let ?us = "filter (\<lambda>uid. bucketsOf uid s = []) (users s)"
  let ?D = "fst ` set DEFAULT_BUCKETS"
  let ?f = "\<lambda>uid. forEach DEFAULT_BUCKETS (insertBucketOnConflictUserName uid)"
  let ?J = "\<lambda>s. registryInvariant s \<and> (\<forall>u\<in>set ?us. b_name ` set (bucketsOf u s) \<subseteq> ?D)"
  have col: "col_user_id s" using inv by (simp add: registryInvariant_def)
  then have run: "seedDefaultBuckets s = forEach ?us ?f s"
    by (simp add: seedDefaultBuckets_def bindS_def needUserIdColumn_def Let_def)
  have j0: "?J s" using inv by simp
  have step: "?J s'" if x: "x \<in> set ?us" and j: "?J s0" and f: "?f x s0 = (r, s')" for x s0 r s'
  proof -
    have eff: "seedEffect x ?D s0 s'" using seedLoop_effect[OF f] .
    have sub: "b_name ` set (bucketsOf x s0) \<union> ?D \<subseteq> ?D" using j x by blast
    have "registryInvariant s'"
      using seedEffect_invariant[OF _ eff sub defaultNames] j by simp
    moreover have "\<forall>u\<in>set ?us. b_name ` set (bucketsOf u s') \<subseteq> ?D"
    proof
      fix u assume u: "u \<in> set ?us"
      show "b_name ` set (bucketsOf u s') \<subseteq> ?D"
      proof (cases "u = x")
        case True
        with seedEffectD(6)[OF eff] sub show ?thesis by blast
      next
        case False
        with seedEffectD(4)[OF eff] j u show ?thesis by simp
      qed
    qed
    ultimately show ?thesis by simp
  qed
  have "?J (snd (seedDefaultBuckets s))"
    by (rule forEach_invariant[of ?us ?J ?f s "fst (seedDefaultBuckets s)", OF step j0])
      (simp_all add: run)
  then show ?thesis by simp
qed

lemma runMigration_invariant:
  assumes inv: "registryInvariant s"
  shows "registryInvariant (snd (runMigration s))"
proof -
  have "col_user_id s" using inv by (simp add: registryInvariant_def)
  then have "runMigration s = seedDefaultBuckets s"
    by (simp add: runMigration_def bindS_def migrate_def)
  with seedDefaultBuckets_invariant[OF inv] show ?thesis by simp
qed

text \<open>
  The base case: the migration script turns a store without buckets and without
  owner column (a fresh installation, with any users) into one that satisfies the
  invariant.
\<close>

lemma fresh_store_invariant:
  assumes "buckets s = []" and "\<not> col_user_id s"
  shows "registryInvariant (snd (runMigration s))"
proof -
  let ?s1 = "s\<lparr>col_user_id := True, user_id_not_null := True, idx_name_unique := False,
               idx_user_name_unique := True\<rparr>"
  have m: "migrate s = (Inr (), ?s1)"
    using assms
    by (simp add: migrate_def addUserIdColumn_def bindS_def setUserIdNotNull_def dropNameIndex_def
        createUserNameIndex_def Let_def)
  have "registryInvariant ?s1"
    using assms by (simp add: registryInvariant_def bucketsOf_def)
  from seedDefaultBuckets_invariant[OF this] m show ?thesis
    by (simp add: runMigration_def bindS_def)
qed

lemma perform_invariant:
  assumes "registryInvariant s"
  shows "registryInvariant (perform x s)"
proof (cases x)
  case (Create uid payload)
  then show ?thesis using assms by (simp add: bucketsPost_invariant)
next
  case (Rename uid payload)
  have "snd (bucketsPut uid payload s) = s
      \<or> (\<exists>p n. payload = Some p \<and>
        snd (bucketsPut uid payload s)
          = snd (updateBucket (the (p_id p)) uid n (integerOrNull (p_sortOrder p)) s))"
    by (rule bucketsPut_state)
  then show ?thesis using assms Rename updateBucket_invariant by auto
next
  case (Delete uid payload)
  then show ?thesis using assms by (simp add: bucketsDelete_invariant)
next
  case (Seed uid)
  then show ?thesis using assms by (simp add: seedBucketsForUser_invariant)
next
  case AdminReset
  then show ?thesis using assms by (simp add: resetData_invariant)
next
  case Migration
  then show ?thesis using assms by (simp add: runMigration_invariant)
qed

lemma fold_perform_invariant:
  "registryInvariant s \<Longrightarrow> registryInvariant (fold perform ops s)"
  by (induction ops arbitrary: s) (simp_all add: perform_invariant)

lemma listBuckets_invariant:
  assumes "registryInvariant s"
  shows "\<exists>rows. listBuckets u s = (Inr rows, s) \<and> length rows \<le> 5 \<and> distinct (map b_name rows)"
proof -
  let ?rows = "sort_key (\<lambda>b. (b_sort b, b_id b)) (bucketsOf u s)"
  have "listBuckets u s = (Inr ?rows, s)"
    using assms by (simp add: listBuckets_def bindS_def needUserIdColumn_def registryInvariant_def)
  moreover have "length ?rows \<le> 5"
    using assms by (simp add: registryInvariant_def MAX_BUCKETS_PER_USER_def)
  moreover have "distinct (map b_name ?rows)"
    using assms by (simp add: registryInvariant_def distinct_map)
  ultimately show ?thesis by blast
qed

text \<open>
  Claim C8, as the code has it. Started from a store that satisfies the invariant of
  the registry (the migrated schema, at most five uniquely named buckets per user; a
  fresh installation after the migration script is such a store), every sequence of
  create, rename, delete, seeding, admin reset and migration leaves a store that
  satisfies it: the list of any user has at most five buckets with pairwise different
  names, and a create with a valid name for a user who has five buckets is refused
  with \<open>LimitExceeded\<close> and changes nothing.
\<close>

theorem registry_invariant_preserved:
  assumes "registryInvariant s"
  shows "registryInvariant (fold perform ops s)
       \<and> (\<exists>rows. listBuckets u (fold perform ops s) = (Inr rows, fold perform ops s)
                  \<and> length rows \<le> 5 \<and> distinct (map b_name rows))
       \<and> (p_name p = Some (JStr str) \<and> trim str \<noteq> [] \<and> 5 \<le> length (bucketsOf u (fold perform ops s))
            \<longrightarrow> bucketsPost u (Some p) (fold perform ops s) = (Inl LimitExceeded, fold perform ops s))"
proof (intro conjI impI)
  show inv: "registryInvariant (fold perform ops s)"
    using assms by (rule fold_perform_invariant)
  show "\<exists>rows. listBuckets u (fold perform ops s) = (Inr rows, fold perform ops s)
                  \<and> length rows \<le> 5 \<and> distinct (map b_name rows)"
    using inv by (rule listBuckets_invariant)
  assume "p_name p = Some (JStr str) \<and> trim str \<noteq> [] \<and> 5 \<le> length (bucketsOf u (fold perform ops s))"
  moreover have "col_user_id (fold perform ops s)" using inv by (simp add: registryInvariant_def)
  ultimately show "bucketsPost u (Some p) (fold perform ops s) = (Inl LimitExceeded, fold perform ops s)"
    by (simp add: bucketsPost_def MAX_BUCKETS_PER_USER_def)
qed

theorem registry_invariant_preserved_witness:
  "registryInvariant exampleDb
   \<and> registryInvariant (fold perform
        [Create 1 (Some \<lparr>p_id = None, p_name = Some (JStr ''Legs''), p_sortOrder = None\<rparr>),
         Rename 1 (Some \<lparr>p_id = Some 1, p_name = Some (JStr ''Core''), p_sortOrder = None\<rparr>),
         Delete 2 (Some \<lparr>p_id = Some 2, p_name = None, p_sortOrder = None\<rparr>),
         Seed 2, Migration, AdminReset] exampleDb)
   \<and> (\<exists>rows. listBuckets 1 (fold perform
        [Create 1 (Some \<lparr>p_id = None, p_name = Some (JStr ''Legs''), p_sortOrder = None\<rparr>),
         Rename 1 (Some \<lparr>p_id = Some 1, p_name = Some (JStr ''Core''), p_sortOrder = None\<rparr>),
         Delete 2 (Some \<lparr>p_id = Some 2, p_name = None, p_sortOrder = None\<rparr>),
         Seed 2, Migration, AdminReset] exampleDb)
          = (Inr rows, fold perform
        [Create 1 (Some \<lparr>p_id = None, p_name = Some (JStr ''Legs''), p_sortOrder = None\<rparr>),
         Rename 1 (Some \<lparr>p_id = Some 1, p_name = Some (JStr ''Core''), p_sortOrder = None\<rparr>),
         Delete 2 (Some \<lparr>p_id = Some 2, p_name = None, p_sortOrder = None\<rparr>),
         Seed 2, Migration, AdminReset] exampleDb)
        \<and> length rows \<le> 5 \<and> distinct (map b_name rows))"
proof -
  have inv: "registryInvariant exampleDb"
    by (auto simp: registryInvariant_def exampleDb_def bucketsOf_def MAX_BUCKETS_PER_USER_def)
  from registry_invariant_preserved[OF inv] inv show ?thesis by blast
qed

text \<open>
  The claim as the specification words it fails for the migration of a legacy
  store: the script copies every global bucket to every user without a limit, and
  after it the list of user 1 has six buckets.
\<close>

theorem registry_invariant_counterexample:
  "map b_name (case fst (listBuckets 1 (fold perform [Migration] legacySixDb)) of
                 Inr rows \<Rightarrow> rows | Inl e \<Rightarrow> [])
     = [''10 min calisthenics'', ''25 min cardio'', ''Stretching / mobility'', ''Meditation'',
        ''Reading'', ''Walk'']
   \<and> \<not> length (case fst (listBuckets 1 (fold perform [Migration] legacySixDb)) of
                 Inr rows \<Rightarrow> rows | Inl e \<Rightarrow> []) \<le> 5"
  by code_simp

section \<open>Properties of the monthly percentage\<close>

lemma bitLength_bounds:
  "0 < n \<Longrightarrow> 2 ^ (bitLength n - 1) \<le> n \<and> n < 2 ^ bitLength n"
proof (induction n rule: less_induct)
  case (less n)
  have bl: "bitLength n = Suc (bitLength (n div 2))"
    using less.prems by (subst bitLength.simps) simp
  show ?case
  proof (cases "n div 2 = 0")
    case True
    with less.prems have "n = 1" by (simp add: div_eq_0_iff)
    moreover have "bitLength 0 = 0" by (subst bitLength.simps) simp
    ultimately show ?thesis using bl True by simp
  next
    case False
    then have pos: "0 < n div 2" by simp
    have lt: "n div 2 < n" using less.prems by simp
    from less.IH[OF lt pos] have ih: "2 ^ (bitLength (n div 2) - 1) \<le> n div 2"
      "n div 2 < 2 ^ bitLength (n div 2)" by simp_all
    have b1: "0 < bitLength (n div 2)"
      using pos by (subst bitLength.simps) simp
    then have "(2::nat) ^ bitLength (n div 2) = 2 * 2 ^ (bitLength (n div 2) - 1)"
      by (cases "bitLength (n div 2)") simp_all
    with ih(1) have lo: "2 ^ bitLength (n div 2) \<le> n" by simp
    from ih(2) have hi: "n < 2 * 2 ^ bitLength (n div 2)" by simp
    show ?thesis using lo hi bl by simp
  qed
qed

lemma floorLog2_le:
  assumes "0 < x"
  shows "2 powi floorLog2 x \<le> x"
proof -
  obtain p q where pq: "quotient_of x = (p, q)" by (cases "quotient_of x")
  have q: "0 < q" using quotient_of_denom_pos[OF pq] .
  have x: "x = of_int p / of_int q" using quotient_of_div[OF pq] .
  have p: "0 < p" using assms q unfolding x by (simp add: zero_less_divide_iff)
  let ?a = "bitLength (nat p)" and ?b = "bitLength (nat q)"
  let ?e0 = "int ?a - int ?b"
  show ?thesis
  proof (cases "2 powi ?e0 \<le> x")
    case True
    then show ?thesis by (simp add: floorLog2_def pq)
  next
    case False
    then have e: "floorLog2 x = ?e0 - 1" by (simp add: floorLog2_def pq)
    from bitLength_bounds[of "nat p"] p have pa: "2 ^ (?a - 1) \<le> nat p" by simp
    from bitLength_bounds[of "nat q"] q have qb: "nat q < 2 ^ ?b" by simp
    have a1: "0 < ?a" using p by (subst bitLength.simps) simp
    then have eq: "?e0 - 1 = int (?a - 1) - int ?b" by simp
    have "(2::rat) powi (?e0 - 1) = 2 powi (int (?a - 1) - int ?b)" by (simp only: eq)
    also have "\<dots> = 2 powi int (?a - 1) / 2 powi int ?b" by (rule power_int_diff) simp
    also have "\<dots> = 2 ^ (?a - 1) / 2 ^ ?b" by (simp only: power_int_of_nat)
    finally have pw: "(2::rat) powi (?e0 - 1) = 2 ^ (?a - 1) / 2 ^ ?b" .
    have "(2::rat) ^ (?a - 1) \<le> of_int p"
    proof -
      have "(2::rat) ^ (?a - 1) = of_nat (2 ^ (?a - 1))" by simp
      also have "\<dots> \<le> of_nat (nat p)" using pa by (simp only: of_nat_le_iff)
      also have "\<dots> = of_int p" using p by simp
      finally show ?thesis .
    qed
    moreover have "(of_int q :: rat) \<le> 2 ^ ?b"
    proof -
      have "(of_int q :: rat) = of_nat (nat q)" using q by simp
      also have "\<dots> \<le> of_nat (2 ^ ?b)" using qb by (simp only: of_nat_le_iff)
      also have "\<dots> = 2 ^ ?b" by simp
      finally show ?thesis .
    qed
    ultimately have le: "(2::rat) ^ (?a - 1) / 2 ^ ?b \<le> of_int p / of_int q"
      using p q by (intro frac_le) simp_all
    have "2 powi (?e0 - 1) \<le> x" unfolding pw using le by (simp only: x)
    then show ?thesis unfolding e .
  qed
qed

lemma roundTiesToEven_error: "\<bar>of_int (roundTiesToEven m) - m\<bar> \<le> 1 / 2"
proof -
  have "of_int \<lfloor>m\<rfloor> \<le> m" "m < of_int \<lfloor>m\<rfloor> + 1" by linarith+
  then show ?thesis
    unfolding roundTiesToEven_def Let_def by (auto simp: abs_le_iff)
qed

lemma fl64_error:
  assumes "0 < x"
  shows "\<bar>fl64 x - x\<bar> \<le> x / 2 ^ 53"
proof -
  let ?e = "floorLog2 x"
  let ?m = "x * 2 powi (52 - ?e)"
  let ?R = "of_int (roundTiesToEven ?m) :: rat"
  have inv: "(2::rat) powi (52 - ?e) * 2 powi (?e - 52) = 1"
    by (simp add: power_int_add[symmetric])
  have fl: "fl64 x = ?R * 2 powi (?e - 52)"
    using assms by (simp add: fl64_def Let_def)
  have "fl64 x - x = (?R - ?m) * 2 powi (?e - 52)"
    using inv by (simp add: fl algebra_simps)
  then have "\<bar>fl64 x - x\<bar> = \<bar>?R - ?m\<bar> * 2 powi (?e - 52)"
    by (simp add: abs_mult)
  also have "\<dots> \<le> (1 / 2) * 2 powi (?e - 52)"
    by (intro mult_right_mono roundTiesToEven_error) simp
  also have "\<dots> = 2 powi ?e / 2 ^ 53"
  proof -
    have "(2::rat) powi (?e - 52) = 2 powi ?e / 2 powi 52" by (simp add: power_int_diff)
    then show ?thesis by simp
  qed
  also have "\<dots> \<le> x / 2 ^ 53"
    using floorLog2_le[OF assms] by (simp add: divide_right_mono)
  finally show ?thesis .
qed

lemma find_owned:
  assumes "distinct (map bk_id B)"
  shows "(case find (\<lambda>b. bk_id b = i) B of None \<Rightarrow> False | Some b \<Rightarrow> bk_userId b = u) = ownedBy B u i"
  using assms
proof (induction B)
  case Nil
  then show ?case by (simp add: ownedBy_def)
next
  case (Cons b B)
  show ?case
  proof (cases "bk_id b = i")
    case True
    with Cons.prems have "\<forall>c\<in>set B. bk_id c \<noteq> i" by (auto simp: image_iff)
    with True show ?thesis by (auto simp: ownedBy_def)
  next
    case False
    with Cons show ?thesis by (simp add: ownedBy_def)
  qed
qed

lemma countEntry_got:
  assumes "distinct (map bk_id B)"
  shows "got (countEntry ep td B e m) u
       = got m u + (if e_checked e \<and> ep \<le> e_date e \<and> e_date e \<le> td
                        \<and> e_user e = u \<and> ownedBy B u (e_bucket e) then 1 else 0)"
  unfolding countEntry_def got_def
  by (cases "find (\<lambda>b. bk_id b = e_bucket e) B")
     (auto simp: find_owned[OF assms, symmetric])

lemma fold_countEntry_got:
  assumes "distinct (map bk_id B)"
  shows "got (fold (countEntry ep td B) es m) u = got m u + completedCount ep td B es u"
proof (induction es arbitrary: m)
  case Nil
  then show ?case by (simp add: completedCount_def)
next
  case (Cons e es)
  show ?case
    using Cons.IH[of "countEntry ep td B e m"] countEntry_got[OF assms, of ep td e m u]
    by (simp add: completedCount_def)
qed

lemma isoDate_day: "isoDate y m d = isoDate y m 1 + (d - 1)"
  by (simp add: isoDate_def Let_def)

lemma activeDaysInMonth_count:
  "activeDaysInMonth ep td m
     = length (filter (\<lambda>day. ep \<le> isoDate (fst m) (snd m) day \<and> isoDate (fst m) (snd m) day \<le> td)
                 [1 .. daysInMonth m])"
proof -
  have "fold (\<lambda>day count. let d = isoDate (fst m) (snd m) day
                        in if d \<ge> ep \<and> d \<le> td then count + 1 else count) xs k
        = k + length (filter (\<lambda>day. ep \<le> isoDate (fst m) (snd m) day \<and> isoDate (fst m) (snd m) day \<le> td) xs)"
    for xs and k :: nat
    by (induction xs arbitrary: k) (simp_all add: Let_def)
  then show ?thesis by (simp add: activeDaysInMonth_def)
qed

lemma activeDaysInMonth_activeDays: "activeDaysInMonth ep td m = activeDays ep td m"
proof -
  let ?s = "isoDate (fst m) (snd m) 1"
  let ?n = "daysInMonth m"
  let ?P = "\<lambda>day. ep \<le> isoDate (fst m) (snd m) day \<and> isoDate (fst m) (snd m) day \<le> td"
  have bounds: "monthBounds m = (?s, ?s + ?n - 1)"
    by (simp add: monthBounds_def daysInMonth_def)
  have "length (filter ?P [1 .. ?n]) = card (set (filter ?P [1 .. ?n]))"
    by (rule distinct_card[symmetric]) simp
  also have "\<dots> = card ((\<lambda>day. ?s + (day - 1)) ` set (filter ?P [1 .. ?n]))"
    by (rule card_image[symmetric]) (simp add: inj_on_def)
  also have "(\<lambda>day. ?s + (day - 1)) ` set (filter ?P [1 .. ?n])
           = {d. ?s \<le> d \<and> d \<le> ?s + ?n - 1 \<and> ep \<le> d \<and> d \<le> td}"
  proof (intro set_eqI iffI)
    fix d assume "d \<in> (\<lambda>day. ?s + (day - 1)) ` set (filter ?P [1 .. ?n])"
    then obtain day where "1 \<le> day" "day \<le> ?n" "?P day" "d = ?s + (day - 1)" by auto
    then show "d \<in> {d. ?s \<le> d \<and> d \<le> ?s + ?n - 1 \<and> ep \<le> d \<and> d \<le> td}"
      using isoDate_day[of "fst m" "snd m" day] by simp
  next
    fix d assume "d \<in> {d. ?s \<le> d \<and> d \<le> ?s + ?n - 1 \<and> ep \<le> d \<and> d \<le> td}"
    then have d: "?s \<le> d" "d \<le> ?s + ?n - 1" "ep \<le> d" "d \<le> td" by simp_all
    let ?day = "d - ?s + 1"
    have "?P ?day" using d isoDate_day[of "fst m" "snd m" ?day] by simp
    moreover have "1 \<le> ?day" "?day \<le> ?n" using d by simp_all
    ultimately have "?day \<in> set (filter ?P [1 .. ?n])" by simp
    moreover have "d = ?s + (?day - 1)" by simp
    ultimately show "d \<in> (\<lambda>day. ?s + (day - 1)) ` set (filter ?P [1 .. ?n])" by (rule rev_image_eqI)
  qed
  finally show ?thesis
    by (simp add: activeDaysInMonth_count activeDays_def bounds)
qed

lemma fl64_zero: "fl64 0 = 0"
  by (simp add: fl64_def)

lemma floor_half: "\<lfloor>(1::rat) / 2\<rfloor> = 0"
  by (rule floor_unique) simp_all

lemma percent_zero_count: "0 < t \<Longrightarrow> percent 0 t = 0"
  by (simp add: percent_def jsDivide_def jsTimes_def fl64_zero mathRound_def floor_half)

lemma percent_exact:
  assumes t: "0 < t" and c: "c < 2 ^ 32" and nt: "(200 * c + t) mod (2 * t) \<noteq> 0"
  shows "percent c t = int ((200 * c + t) div (2 * t))"
proof (cases "c = 0")
  case True
  with t show ?thesis by (simp add: percent_zero_count)
next
  case False
  define C :: rat where "C = of_nat c"
  define T :: rat where "T = of_nat t"
  define x where "x = C / T"
  define e where "e = x / 9007199254740992"
  define a where "a = fl64 x"
  define P where "P = fl64 (a * 100)"
  have Cpos: "0 < C" and Tpos: "0 < T" using False t by (simp_all add: C_def T_def)
  have Cle: "C < 4294967296"
  proof -
    have "C < of_nat (2 ^ 32)" unfolding C_def using c by (simp only: of_nat_less_iff)
    then show ?thesis by simp
  qed
  have xpos: "0 < x" using Cpos Tpos by (simp add: x_def)
  have epos: "0 < e" using xpos by (simp add: e_def)
  have ex: "x = e * 9007199254740992" by (simp add: e_def)
  have h1: "\<bar>a - x\<bar> \<le> e" using fl64_error[OF xpos] by (simp add: a_def e_def)
  then have apos: "0 < a" using ex epos by linarith
  then have "0 < a * 100" by simp
  from fl64_error[OF this] have h2: "\<bar>P - a * 100\<bar> \<le> a * 100 / 9007199254740992"
    by (simp add: P_def)
  have err: "\<bar>P - 100 * x\<bar> \<le> 201 * e" using h1 h2 ex epos by linarith
  define D :: rat where "D = 2 * T"
  define u where "u = 1 / D"
  have Dpos: "0 < D" using Tpos by (simp add: D_def)
  have small: "201 * e < u"
  proof -
    have "201 * e = (201 * C / 9007199254740992) / T" by (simp add: e_def x_def)
    also have "\<dots> < (1 / 2) / T"
      using Cle Tpos by (intro divide_strict_right_mono) simp_all
    also have "\<dots> = u" by (simp add: u_def D_def)
    finally show ?thesis .
  qed
  let ?N = "200 * c + t" and ?D = "2 * t"
  define k where "k = ?N div ?D"
  define r where "r = ?N mod ?D"
  have r1: "1 \<le> r" using nt by (simp add: r_def)
  have "r < ?D" unfolding r_def using t by (intro mod_less_divisor) simp
  then have r2: "r + 1 \<le> ?D" by simp
  have N: "?N = k * ?D + r" unfolding k_def r_def by (rule div_mult_mod_eq[symmetric])
  have ND: "(of_nat ?N :: rat) = 200 * C + T" "(of_nat ?D :: rat) = D"
    by (simp_all add: C_def T_def D_def)
  define rr :: rat where "rr = of_nat r / D"
  have "(of_nat ?N :: rat) = of_nat k * D + of_nat r"
  proof -
    have "(of_nat ?N :: rat) = of_nat (k * ?D + r)" using N by (simp only:)
    also have "\<dots> = of_nat k * D + of_nat r" using ND(2) by (simp only: of_nat_add of_nat_mult)
    finally show ?thesis .
  qed
  then have "200 * C + T = of_nat k * D + of_nat r" by (simp only: ND(1))
  then have "(200 * C + T) / D = of_nat k + rr"
    using Dpos by (simp add: rr_def field_simps)
  moreover have "(200 * C + T) / D = 100 * x + 1 / 2"
    using Tpos by (simp add: D_def x_def field_simps)
  ultimately have mid: "100 * x + 1 / 2 = of_nat k + rr" by simp
  have rr1: "u \<le> rr"
  proof -
    have "(1::rat) \<le> of_nat r" using r1 by simp
    then show ?thesis unfolding u_def rr_def using Dpos by (intro divide_right_mono) simp_all
  qed
  have rr2: "rr + u \<le> 1"
  proof -
    have "(of_nat (r + 1) :: rat) \<le> of_nat ?D" using r2 by (simp only: of_nat_le_iff)
    then have "(of_nat r + 1 :: rat) \<le> D" using ND(2) by simp
    then have "(of_nat r + 1) / D \<le> D / D" using Dpos by (intro divide_right_mono) simp_all
    then show ?thesis using Dpos by (simp add: rr_def u_def add_divide_distrib)
  qed
  have lo: "of_int (int k) \<le> P + 1 / 2" and hi: "P + 1 / 2 < of_int (int k) + 1"
    using err small mid rr1 rr2 by (simp_all add: abs_le_iff)
  have "\<lfloor>P + 1 / 2\<rfloor> = int k" using lo hi by (rule floor_unique)
  moreover have "percent c t = \<lfloor>P + 1 / 2\<rfloor>"
    using t by (simp add: percent_def jsDivide_def jsTimes_def mathRound_def P_def a_def x_def C_def T_def)
  ultimately show ?thesis by (simp add: k_def)
qed


lemma exactRound_div:
  assumes "0 < t"
  shows "exactRound c t = int ((200 * c + t) div (2 * t))"
proof -
  have "100 * (of_nat c :: rat) / of_nat t + 1 / 2 = of_nat (200 * c + t) / of_nat (2 * t)"
    using assms by (simp add: field_simps)
  then have "exactRound c t = \<lfloor>(of_nat (200 * c + t) :: rat) / of_nat (2 * t)\<rfloor>"
    by (simp only: exactRound_def)
  then show ?thesis by (simp only: floor_divide_of_nat_eq)
qed

text \<open>
  The double nearest to a positive rational is determined by its binade and by the
  integer nearest to its scaled significand; with it the percentage of 23 out of 40
  is evaluated.
\<close>

lemma floorLog2_less:
  assumes "0 < x"
  shows "x < 2 powi (floorLog2 x + 1)"
proof -
  obtain p q where pq: "quotient_of x = (p, q)" by (cases "quotient_of x")
  have q: "0 < q" using quotient_of_denom_pos[OF pq] .
  have x: "x = of_int p / of_int q" using quotient_of_div[OF pq] .
  have p: "0 < p" using assms q unfolding x by (simp add: zero_less_divide_iff)
  let ?a = "bitLength (nat p)" and ?b = "bitLength (nat q)"
  let ?e0 = "int ?a - int ?b"
  show ?thesis
  proof (cases "2 powi ?e0 \<le> x")
    case False
    then have e: "floorLog2 x = ?e0 - 1" by (simp add: floorLog2_def pq)
    from False show ?thesis unfolding e by simp
  next
    case True
    then have e: "floorLog2 x = ?e0" by (simp add: floorLog2_def pq)
    from bitLength_bounds[of "nat p"] p have pa: "nat p < 2 ^ ?a" by simp
    from bitLength_bounds[of "nat q"] q have qb: "2 ^ (?b - 1) \<le> nat q" by simp
    have b1: "0 < ?b" using q by (subst bitLength.simps) simp
    then have eq: "?e0 + 1 = int ?a - int (?b - 1)" by simp
    have "(2::rat) powi (?e0 + 1) = 2 powi (int ?a - int (?b - 1))" by (simp only: eq)
    also have "\<dots> = 2 powi int ?a / 2 powi int (?b - 1)" by (rule power_int_diff) simp
    also have "\<dots> = 2 ^ ?a / 2 ^ (?b - 1)" by (simp only: power_int_of_nat)
    finally have pw: "(2::rat) powi (?e0 + 1) = 2 ^ ?a / 2 ^ (?b - 1)" .
    have up: "of_int p < (2::rat) ^ ?a"
    proof -
      have "(of_int p :: rat) = of_nat (nat p)" using p by simp
      also have "\<dots> < of_nat (2 ^ ?a)" using pa by (simp only: of_nat_less_iff)
      also have "\<dots> = 2 ^ ?a" by simp
      finally show ?thesis .
    qed
    have lo: "(2::rat) ^ (?b - 1) \<le> of_int q"
    proof -
      have "(2::rat) ^ (?b - 1) = of_nat (2 ^ (?b - 1))" by simp
      also have "\<dots> \<le> of_nat (nat q)" using qb by (simp only: of_nat_le_iff)
      also have "\<dots> = of_int q" using q by simp
      finally show ?thesis .
    qed
    have "of_int p / of_int q < (2::rat) ^ ?a / 2 ^ (?b - 1)"
      using up lo p q by (intro frac_less) simp_all
    then have "x < 2 powi (?e0 + 1)" unfolding pw by (simp only: x)
    then show ?thesis unfolding e .
  qed
qed

lemma floorLog2_unique:
  assumes x: "0 < x" and lo: "2 powi e \<le> x" and hi: "x < 2 powi (e + 1)"
  shows "floorLog2 x = e"
proof -
  let ?f = "floorLog2 x"
  have "\<not> e + 1 \<le> ?f"
  proof
    assume "e + 1 \<le> ?f"
    then have "(2::rat) powi (e + 1) \<le> 2 powi ?f" by (intro power_int_increasing) simp_all
    with floorLog2_le[OF x] hi show False by simp
  qed
  moreover have "\<not> ?f + 1 \<le> e"
  proof
    assume "?f + 1 \<le> e"
    then have "(2::rat) powi (?f + 1) \<le> 2 powi e" by (intro power_int_increasing) simp_all
    with floorLog2_less[OF x] lo show False by simp
  qed
  ultimately show ?thesis by simp
qed

lemma roundTiesToEven_unique:
  assumes "\<bar>of_int R - m\<bar> < 1 / 2"
  shows "roundTiesToEven m = R"
proof -
  let ?f = "\<lfloor>m\<rfloor>"
  have f: "of_int ?f \<le> m" "m < of_int ?f + 1" by linarith+
  from assms have R: "of_int R < m + 1 / 2" "m - 1 / 2 < of_int R" by linarith+
  show ?thesis
  proof (cases "m - of_int ?f < 1 / 2")
    case True
    have "(of_int R :: rat) < of_int ?f + 1" using R(1) True by linarith
    then have "(of_int R :: rat) < of_int (?f + 1)" by simp
    then have "R < ?f + 1" by (simp only: of_int_less_iff)
    moreover have "(of_int ?f :: rat) - 1 < of_int R" using R(2) f(1) by linarith
    then have "(of_int (?f - 1) :: rat) < of_int R" by simp
    then have "?f - 1 < R" by (simp only: of_int_less_iff)
    ultimately have "R = ?f" by simp
    with True show ?thesis by (simp add: roundTiesToEven_def Let_def)
  next
    case False
    have "(of_int ?f :: rat) < of_int R" using R(2) False by linarith
    then have "?f < R" by (simp only: of_int_less_iff)
    moreover have "(of_int R :: rat) < of_int ?f + 2" using R(1) f(2) by linarith
    then have "(of_int R :: rat) < of_int (?f + 2)" by simp
    then have "R < ?f + 2" by (simp only: of_int_less_iff)
    ultimately have Rf: "R = ?f + 1" by simp
    have "1 / 2 < m - of_int ?f" using R(1) Rf by simp
    with Rf False show ?thesis by (simp add: roundTiesToEven_def Let_def)
  qed
qed

lemma fl64_eqI:
  assumes x: "0 < x" and lo: "2 powi e \<le> x" and hi: "x < 2 powi (e + 1)"
    and R: "\<bar>of_int R - x * 2 powi (52 - e)\<bar> < 1 / 2"
  shows "fl64 x = of_int R * 2 powi (e - 52)"
  using x floorLog2_unique[OF x lo hi] roundTiesToEven_unique[OF R]
  by (simp add: fl64_def Let_def)

lemma jsDivide_23_40:
  "jsDivide (of_nat 23) (of_nat 40) = 2589569785738035 / 4503599627370496"
proof -
  have "fl64 (23 / 40) = of_int 5179139571476070 * 2 powi (- 1 - 52)"
    by (rule fl64_eqI) simp_all
  then show ?thesis by (simp add: jsDivide_def)
qed

lemma jsTimes_100:
  "jsTimes (2589569785738035 / 4503599627370496) 100 = 8092405580431359 / 140737488355328"
proof -
  have "fl64 (2589569785738035 / 4503599627370496 * 100) = of_int 8092405580431359 * 2 powi (5 - 52)"
    by (rule fl64_eqI) simp_all
  then show ?thesis by (simp add: jsTimes_def)
qed

lemma mathRound_57: "mathRound (8092405580431359 / 140737488355328) = 57"
  unfolding mathRound_def by (rule floor_unique) simp_all

lemma percent_23_40: "percent 23 40 = 57"
  unfolding percent_def jsDivide_23_40 jsTimes_100 mathRound_57 by simp

lemma statPercent_counts:
  assumes "distinct (map bk_id allBuckets)"
  shows "statPercent epoch today m allBuckets entriesL u
           = percent (completedCount epoch today allBuckets entriesL u)
               (length (getBucketsForUser allBuckets u) * activeDays epoch today m)"
proof -
  have "got (monthlyCompletionCounts epoch today allBuckets entriesL) u
          = completedCount epoch today allBuckets entriesL u"
    using fold_countEntry_got[OF assms, of epoch today entriesL Map.empty u]
    by (simp add: monthlyCompletionCounts_def got_def)
  then show ?thesis
    by (simp add: statPercent_def Let_def got_def getTotalPossibleForUser_def
        activeDaysInMonth_activeDays)
qed

text \<open>
  Claim C4, as the code has it. The bucket identifiers being unique, the percentage
  shown for a user \<open>u\<close> and a month \<open>m\<close>, computed from the entries that the server
  returns for \<open>m\<close>, is \<^verbatim>\<open>Math.round((count / total) * 100)\<close> in double arithmetic, where
  \<open>count\<close> is the completed count of \<open>u\<close> in \<open>m\<close> and \<open>total\<close> is the number of buckets
  of \<open>u\<close> times the number of active days of \<open>m\<close>. It is 0 when \<open>total\<close> is 0, and it
  is the exactly rounded \<open>100 \<times> count \<div> total\<close> whenever that quotient is not half-way
  between two integers (for counts below \<open>2^32\<close>).
\<close>

theorem statPercent_value:
  assumes "distinct (map bk_id allBuckets)"
  shows "statPercent epoch today m allBuckets (checkinsGet m s) u
           = percent (completedInMonth epoch today m allBuckets (entries s) u)
               (length (getBucketsForUser allBuckets u) * activeDays epoch today m)
       \<and> (length (getBucketsForUser allBuckets u) * activeDays epoch today m = 0
            \<longrightarrow> statPercent epoch today m allBuckets (checkinsGet m s) u = 0)
       \<and> (length (getBucketsForUser allBuckets u) * activeDays epoch today m \<noteq> 0
          \<and> completedInMonth epoch today m allBuckets (entries s) u < 2 ^ 32
          \<and> \<not> halfway (completedInMonth epoch today m allBuckets (entries s) u)
                 (length (getBucketsForUser allBuckets u) * activeDays epoch today m)
            \<longrightarrow> statPercent epoch today m allBuckets (checkinsGet m s) u
                  = exactRound (completedInMonth epoch today m allBuckets (entries s) u)
                      (length (getBucketsForUser allBuckets u) * activeDays epoch today m))"
proof -
  let ?c = "completedInMonth epoch today m allBuckets (entries s) u"
  let ?t = "length (getBucketsForUser allBuckets u) * activeDays epoch today m"
  have get: "checkinsGet m s
               = filter (\<lambda>e. fst (monthBounds m) \<le> e_date e \<and> e_date e \<le> snd (monthBounds m)) (entries s)"
    by (simp add: checkinsGet_def split: prod.splits)
  have eq: "statPercent epoch today m allBuckets (checkinsGet m s) u = percent ?c ?t"
    unfolding completedInMonth_def get[symmetric] by (rule statPercent_counts[OF assms])
  have zero: "?t = 0 \<longrightarrow> statPercent epoch today m allBuckets (checkinsGet m s) u = 0"
    by (simp add: eq percent_def)
  have exact: "?t \<noteq> 0 \<and> ?c < 2 ^ 32 \<and> \<not> halfway ?c ?t
                 \<longrightarrow> statPercent epoch today m allBuckets (checkinsGet m s) u = exactRound ?c ?t"
  proof
    assume h: "?t \<noteq> 0 \<and> ?c < 2 ^ 32 \<and> \<not> halfway ?c ?t"
    then have t: "0 < ?t" and c: "?c < 2 ^ 32" and nt: "(200 * ?c + ?t) mod (2 * ?t) \<noteq> 0"
      by (simp_all add: halfway_def dvd_eq_mod_eq_0)
    from percent_exact[OF t c nt] exactRound_div[OF t, of ?c] eq
    show "statPercent epoch today m allBuckets (checkinsGet m s) u = exactRound ?c ?t" by simp
  qed
  from eq zero exact show ?thesis by blast
qed

theorem statPercent_value_witness:
  "distinct (map bk_id specBuckets)
   \<and> length (getBucketsForUser specBuckets 1)
       * activeDays (isoDate 2024 4 1) (isoDate 2024 4 15) (2024, 4) = 45
   \<and> completedInMonth (isoDate 2024 4 1) (isoDate 2024 4 15) (2024, 4) specBuckets (entries specDb) 1 = 20
   \<and> \<not> halfway 20 45
   \<and> exactRound 20 45 = 44
   \<and> statPercent (isoDate 2024 4 1) (isoDate 2024 4 15) (2024, 4) specBuckets
        (checkinsGet (2024, 4) specDb) 1 = 44"
proof -
  have d: "distinct (map bk_id specBuckets)" by code_simp
  have t': "length (getBucketsForUser specBuckets 1)
              * activeDaysInMonth (isoDate 2024 4 1) (isoDate 2024 4 15) (2024, 4) = 45"
    by code_simp
  have t: "length (getBucketsForUser specBuckets 1)
             * activeDays (isoDate 2024 4 1) (isoDate 2024 4 15) (2024, 4) = 45"
    using t' by (simp only: activeDaysInMonth_activeDays)
  have c: "completedInMonth (isoDate 2024 4 1) (isoDate 2024 4 15) (2024, 4) specBuckets (entries specDb) 1 = 20"
    by code_simp
  have h: "\<not> halfway 20 45" by code_simp
  have r: "exactRound 20 45 = 44" by code_simp
  have n: "(45::nat) \<noteq> 0" "(20::nat) < 2 ^ 32" by simp_all
  note inst = statPercent_value[OF d, of "isoDate 2024 4 1" "isoDate 2024 4 15" "(2024, 4)" specDb 1]
  have "statPercent (isoDate 2024 4 1) (isoDate 2024 4 15) (2024, 4) specBuckets
          (checkinsGet (2024, 4) specDb) 1 = exactRound 20 45"
    using inst n h unfolding t c by blast
  then have s: "statPercent (isoDate 2024 4 1) (isoDate 2024 4 15) (2024, 4) specBuckets
          (checkinsGet (2024, 4) specDb) 1 = 44"
    by (simp only: r)
  from d t c h r s show ?thesis by (intro conjI)
qed

text \<open>
  The claim as the specification words it fails where \<open>100 \<times> count \<div> total\<close> is a tie
  that double arithmetic misses: with four buckets, ten active days and 23
  completed entries the quotient is \<open>57.5\<close>, which rounds to 58, but
  \<^verbatim>\<open>(23 / 40) * 100\<close> is \<^verbatim>\<open>57.49999999999999\<close> in double arithmetic and the card
  shows 57.
\<close>

theorem statPercent_value_counterexample:
  "statPercent (isoDate 2024 4 1) (isoDate 2024 4 10) (2024, 4) tieBuckets (checkinsGet (2024, 4) tieDb) 1 = 57
   \<and> exactRound (completedInMonth (isoDate 2024 4 1) (isoDate 2024 4 10) (2024, 4) tieBuckets (entries tieDb) 1)
        (length (getBucketsForUser tieBuckets 1)
           * activeDaysInMonth (isoDate 2024 4 1) (isoDate 2024 4 10) (2024, 4)) = 58"
proof -
  have d: "distinct (map bk_id tieBuckets)" by code_simp
  have c: "completedCount (isoDate 2024 4 1) (isoDate 2024 4 10) tieBuckets (checkinsGet (2024, 4) tieDb) 1 = 23"
    by code_simp
  have c': "completedInMonth (isoDate 2024 4 1) (isoDate 2024 4 10) (2024, 4) tieBuckets (entries tieDb) 1 = 23"
    by code_simp
  have t: "length (getBucketsForUser tieBuckets 1)
             * activeDaysInMonth (isoDate 2024 4 1) (isoDate 2024 4 10) (2024, 4) = 40"
    by code_simp
  have r: "exactRound 23 40 = 58" by code_simp
  have sp: "statPercent (isoDate 2024 4 1) (isoDate 2024 4 10) (2024, 4) tieBuckets (checkinsGet (2024, 4) tieDb) 1
          = percent (completedCount (isoDate 2024 4 1) (isoDate 2024 4 10) tieBuckets (checkinsGet (2024, 4) tieDb) 1)
              (length (getBucketsForUser tieBuckets 1)
                 * activeDaysInMonth (isoDate 2024 4 1) (isoDate 2024 4 10) (2024, 4))"
    by (simp only: statPercent_counts[OF d] activeDaysInMonth_activeDays)
  have left: "statPercent (isoDate 2024 4 1) (isoDate 2024 4 10) (2024, 4) tieBuckets (checkinsGet (2024, 4) tieDb) 1 = 57"
    by (simp only: sp c t percent_23_40)
  have right: "exactRound (completedInMonth (isoDate 2024 4 1) (isoDate 2024 4 10) (2024, 4) tieBuckets (entries tieDb) 1)
        (length (getBucketsForUser tieBuckets 1)
           * activeDaysInMonth (isoDate 2024 4 1) (isoDate 2024 4 10) (2024, 4)) = 58"
    by (simp only: c' t r)
  from left right show ?thesis by (rule conjI)
qed

end
